theory Spec2Isabelle
  imports Main "HOL-Library.Word" "HOL-Library.AList"
begin

unbundle bit_operations_syntax

section \<open>JavaScript numbers and arrays as the source uses them\<close>

text \<open>
  The source is \<^verbatim>\<open>src/src/index.ts\<close>. Its numbers are JavaScript numbers that hold
  integers; they are modelled as \<^typ>\<open>int\<close>. The bitwise operators of JavaScript first
  convert each operand to a signed 32-bit integer (ToInt32) and return a signed 32-bit
  integer; shift counts are taken modulo 32.
\<close>

definition max8 :: int where "max8 = 256"
definition max16 :: int where "max16 = 65536"
definition max24 :: int where "max24 = 16777216"
definition max32 :: int where "max32 = 4294967296"
definition mask8 :: int where "mask8 = 255"
definition mask16 :: int where "mask16 = 65535"
definition mask24 :: int where "mask24 = 16777215"

definition toInt32 :: "int \<Rightarrow> int" where
  "toInt32 x = (x + 2147483648) mod 4294967296 - 2147483648"

text \<open>\<^verbatim>\<open>x << s\<close>\<close>
definition js_shl :: "int \<Rightarrow> nat \<Rightarrow> int" where
  "js_shl x s = toInt32 (toInt32 x * 2 ^ (s mod 32))"

text \<open>\<^verbatim>\<open>x >> s\<close>, the sign-propagating shift\<close>
definition js_sar :: "int \<Rightarrow> nat \<Rightarrow> int" where
  "js_sar x s = toInt32 x div 2 ^ (s mod 32)"

text \<open>\<^verbatim>\<open>x & y\<close>\<close>
definition js_and :: "int \<Rightarrow> int \<Rightarrow> int" where
  "js_and x y = toInt32 x AND toInt32 y"

text \<open>\<^verbatim>\<open>x | y\<close>\<close>
definition js_or :: "int \<Rightarrow> int \<Rightarrow> int" where
  "js_or x y = toInt32 x OR toInt32 y"

text \<open>\<^verbatim>\<open>~x\<close>\<close>
definition js_not :: "int \<Rightarrow> int" where
  "js_not x = - toInt32 x - 1"

text \<open>
  A plain JavaScript array of values: reading past the end (or a hole) gives
  \<^verbatim>\<open>undefined\<close>, here \<^const>\<open>None\<close>; writing past the end extends the array with
  holes.
\<close>

definition jsget :: "'a option list \<Rightarrow> nat \<Rightarrow> 'a option" where
  "jsget xs i = (if i < length xs then xs ! i else None)"

definition jsset :: "'a option list \<Rightarrow> nat \<Rightarrow> 'a option \<Rightarrow> 'a option list" where
  "jsset xs i v =
     (if i < length xs then xs[i := v]
      else xs @ replicate (i - length xs) None @ [v])"

text \<open>
  A typed array has a fixed length: a read out of range gives \<^verbatim>\<open>undefined\<close>, a write
  out of range is ignored. The element type does the conversion of the number written
  (\<^term>\<open>word_of_int\<close> for a \<^verbatim>\<open>Uint32Array\<close>).
\<close>

definition typed_get :: "'a list \<Rightarrow> nat \<Rightarrow> 'a option" where
  "typed_get xs i = (if i < length xs then Some (xs ! i) else None)"

definition typed_set :: "'a list \<Rightarrow> nat \<Rightarrow> 'a \<Rightarrow> 'a list" where
  "typed_set xs i v = (if i < length xs then xs[i := v] else xs)"

text \<open>
  The index that \<^verbatim>\<open>alloc\<close> writes at comes from \<^verbatim>\<open>Stack.pop\<close> and is
  \<^verbatim>\<open>undefined\<close> when the pop reads out of range; an array write at the key
  \<^verbatim>\<open>undefined\<close> changes no element.
\<close>

definition jsset_at :: "'a option list \<Rightarrow> nat option \<Rightarrow> 'a option \<Rightarrow> 'a option list" where
  "jsset_at xs io v = (case io of None \<Rightarrow> xs | Some i \<Rightarrow> jsset xs i v)"

definition typed_set_at :: "'a list \<Rightarrow> nat option \<Rightarrow> 'a \<Rightarrow> 'a list" where
  "typed_set_at xs io v = (case io of None \<Rightarrow> xs | Some i \<Rightarrow> typed_set xs i v)"

text \<open>
  \<^verbatim>\<open>unsafeUint32Array\<close> and its siblings return uninitialised memory when a
  \<^verbatim>\<open>Buffer\<close> type exists and a zero-filled array otherwise. The model takes the second
  branch; the source writes every slab entry of a slot when the slot is allocated.
\<close>

definition unsafeUint32Array :: "nat \<Rightarrow> 32 word list" where
  "unsafeUint32Array len = replicate len 0"

definition unsafeUint16Array :: "nat \<Rightarrow> 16 word list" where
  "unsafeUint16Array len = replicate len 0"

definition unsafeUint8Array :: "nat \<Rightarrow> 8 word list" where
  "unsafeUint8Array len = replicate len 0"

section \<open>Errors\<close>

datatype error =
    PointerAsRaw string          \<comment> \<open>\<^verbatim>\<open>errPointerAsRaw\<close>\<close>
  | RawAsPointer string          \<comment> \<open>\<^verbatim>\<open>errRawAsPointer\<close>\<close>
  | UnknownRawField string       \<comment> \<open>\<^verbatim>\<open>errUnknownRawField\<close>\<close>
  | UnknownPointerField string   \<comment> \<open>\<^verbatim>\<open>errUnknownPointerField\<close>\<close>
  | ReadFromNull                 \<comment> \<open>cannot read from null pointer\<close>
  | WriteToNull                  \<comment> \<open>cannot write to null pointer\<close>
  | FreeNull                     \<comment> \<open>cannot free null pointer\<close>
  | EraseNull                    \<comment> \<open>cannot erase null pointer\<close>
  | BlockSizeTooBig              \<comment> \<open>block size must be less than or equal to 65536\<close>
  | InvalidRawField string       \<comment> \<open>invalid raw field f, specified in fields\<close>
  | OutOfMemory                  \<comment> \<open>\<^verbatim>\<open>RangeError('out of memory')\<close>\<close>
  | OnlyFinalBlock               \<comment> \<open>only the final block may be dropped\<close>
  | JsTypeError                  \<comment> \<open>a property read or write on \<^verbatim>\<open>undefined\<close>\<close>

section \<open>The stack of free indexes\<close>

datatype StackData = Uint8Array "8 word list" | Uint16Array "16 word list"

record Stack =
  data :: StackData
  length_s :: nat

definition Stack_new :: "nat \<Rightarrow> Stack" where
  "Stack_new mx =
     \<lparr> data = (if int mx \<le> max8 then Uint8Array (unsafeUint8Array mx)
                else Uint16Array (unsafeUint16Array mx)),
       length_s = 0 \<rparr>"

text \<open>\<^verbatim>\<open>this.data[this.length++] = n\<close>\<close>
definition push :: "Stack \<Rightarrow> nat \<Rightarrow> Stack" where
  "push s n =
     \<lparr> data = (case data s of
                  Uint8Array xs \<Rightarrow> Uint8Array (typed_set xs (length_s s) (of_nat n))
                | Uint16Array xs \<Rightarrow> Uint16Array (typed_set xs (length_s s) (of_nat n))),
       length_s = length_s s + 1 \<rparr>"

text \<open>
  \<^verbatim>\<open>return this.data[--this.length]\<close>. The source pops only a stack whose length is
  not zero, so the length stays a natural number.
\<close>
definition pop :: "Stack \<Rightarrow> nat option \<times> Stack" where
  "pop s =
     (let l = length_s s - 1 in
      (case data s of
         Uint8Array xs \<Rightarrow> map_option unat (typed_get xs l)
       | Uint16Array xs \<Rightarrow> map_option unat (typed_get xs l),
       s\<lparr>length_s := l\<rparr>))"

section \<open>Blocks and the pointer set\<close>

text \<open>
  A block holds what the source sets apart for each block. What the source copies into
  every block from the root (\<^verbatim>\<open>blocks\<close>, \<^verbatim>\<open>blocksAvail\<close> and \<^verbatim>\<open>names\<close>, shared by
  reference, and the codec constants, equal in all blocks) is kept once, in the record of
  the whole set. \<^verbatim>\<open>names\<close> is the list of the entries of the object, in the order
  of \<^verbatim>\<open>Object.entries\<close> (the order in which the keys were first set, for keys that are
  not array indexes). The \<^verbatim>\<open>blockId\<close> of a block is its position in \<^verbatim>\<open>blocks\<close>: the
  constructor of a block sets it to \<^verbatim>\<open>blocks.length\<close> and pushes the block, and blocks
  leave the list only from its end. \<^verbatim>\<open>blocksAvail\<close>, a JavaScript \<^verbatim>\<open>Set\<close> that is
  iterated in insertion order, is the list of the block ids in that order.
\<close>

record 'v block =
  values_b :: "'v option list"
  nextFree :: nat
  fields_b :: "32 word list list"
  rawFields :: "32 word list list"
  freeList :: Stack
  firstNextFree :: nat

record 'v pointer_set =
  blocks :: "'v block list"
  blocksAvail :: "nat list"
  names :: "(string \<times> int) list"
  wordSize :: nat
  shift :: nat
  mask_p :: int
  blockIdMask :: int
  blockSize :: nat
  shiftDownFix :: int
  shiftUpFix :: int

definition getWordSize :: "nat \<Rightarrow> nat" where
  "getWordSize mx = (if int mx \<le> max8 then 1 else if int mx \<le> max16 then 2 else 4)"

subsection \<open>The pointer codec\<close>

definition getBlockId :: "'v pointer_set \<Rightarrow> int \<Rightarrow> int" where
  "getBlockId st p =
     (let b = js_sar p (shift st) in if b \<ge> 0 then b else shiftDownFix st + b)"

definition getIndex :: "'v pointer_set \<Rightarrow> int \<Rightarrow> int" where
  "getIndex st p = js_and p (mask_p st)"

definition getPointer :: "'v pointer_set \<Rightarrow> int \<Rightarrow> int \<Rightarrow> int" where
  "getPointer st blockId index =
     (let b = js_shl blockId (shift st) in
      js_or (if b \<ge> 0 then b else shiftUpFix st + b) index)"

subsection \<open>The constructor of the root block\<close>

text \<open>The loop over \<^verbatim>\<open>fields\<close>: each name gets the next field id and a new slab.\<close>

fun init_fields ::
  "nat \<Rightarrow> string list \<Rightarrow> (string \<times> int) list \<times> 32 word list list
     \<Rightarrow> (string \<times> int) list \<times> 32 word list list" where
  "init_fields bs [] acc = acc"
| "init_fields bs (f # rest) (nm, slabs) =
     init_fields bs rest
       (AList.update f (int (length slabs)) nm,
        slabs @ [typed_set (unsafeUint32Array bs) 0 0])"

text \<open>The loop over \<^verbatim>\<open>rawFields\<close>, which throws at a name that is also a field.\<close>

fun init_rawFields ::
  "string list \<Rightarrow> nat \<Rightarrow> string list \<Rightarrow> (string \<times> int) list \<times> 32 word list list
     \<Rightarrow> error + (string \<times> int) list \<times> 32 word list list" where
  "init_rawFields fs bs [] acc = Inr acc"
| "init_rawFields fs bs (f # rest) (nm, slabs) =
     (if f \<in> set fs then Inl (InvalidRawField f)
      else init_rawFields fs bs rest
             (AList.update f (js_not (int (length slabs))) nm,
              slabs @ [typed_set (unsafeUint32Array bs) 0 0]))"

definition PointerSet_new ::
  "string list \<Rightarrow> nat option \<Rightarrow> string list option \<Rightarrow> error + 'v pointer_set" where
  "PointerSet_new fs blockSize_arg rawFs =
     (let bs = (case blockSize_arg of None \<Rightarrow> 256 | Some n \<Rightarrow> n);
          ws = getWordSize bs
      in if ws \<noteq> 1 \<and> ws \<noteq> 2 then Inl BlockSizeTooBig
         else
           (let (nm, slabs) = init_fields bs fs ([], []) in
            case (case rawFs of None \<Rightarrow> Inr (nm, [])
                  | Some rs \<Rightarrow> init_rawFields fs bs rs (nm, [])) of
              Inl e \<Rightarrow> Inl e
            | Inr (nm', rslabs) \<Rightarrow>
                Inr \<lparr> blocks =
                        [\<lparr> values_b = [None], nextFree = 1, fields_b = slabs,
                           rawFields = rslabs, freeList = Stack_new bs,
                           firstNextFree = 1 \<rparr>],
                      blocksAvail = [0],
                      names = nm',
                      wordSize = ws,
                      shift = (if ws = 1 then 8 else 16),
                      mask_p = (if ws = 1 then mask8 else mask16),
                      blockIdMask = (if ws = 1 then mask24 else mask16),
                      blockSize = bs,
                      shiftDownFix = (if ws = 1 then max24 else max16),
                      shiftUpFix = max32 \<rparr>))"

subsection \<open>The constructor of an extension block\<close>

text \<open>\<^verbatim>\<open>Set.add\<close> and \<^verbatim>\<open>Set.delete\<close> on \<^verbatim>\<open>blocksAvail\<close>.\<close>

definition avail_add :: "nat \<Rightarrow> nat list \<Rightarrow> nat list" where
  "avail_add b av = (if b \<in> set av then av else av @ [b])"

definition avail_delete :: "nat \<Rightarrow> nat list \<Rightarrow> nat list" where
  "avail_delete b av = removeAll b av"

text \<open>
  \<^verbatim>\<open>new PointerSetBlock(blocks, blocksAvail, names, ...)\<close>: the new block takes the next
  block id, which must fit the block id mask, and is pushed on \<^verbatim>\<open>blocks\<close> and added
  to \<^verbatim>\<open>blocksAvail\<close>; it gets as many slabs as \<^verbatim>\<open>blocks[0]\<close> has (none when
  the new block is itself block 0, its own slab lists being empty when they are counted).
  The check that \<^verbatim>\<open>blocks[blockId]\<close> is the new block cannot fail after the push and
  is left out.
\<close>

definition PointerSetBlock_new :: "'v pointer_set \<Rightarrow> error + 'v pointer_set" where
  "PointerSetBlock_new st =
     (let blockId = length (blocks st) in
      if int blockId = js_and (int blockId) (blockIdMask st) then
        (let nf = (case blocks st of [] \<Rightarrow> 0 | root # _ \<Rightarrow> length (fields_b root));
             nr = (case blocks st of [] \<Rightarrow> 0 | root # _ \<Rightarrow> length (rawFields root))
         in Inr (st\<lparr> blocks := blocks st @
                       [\<lparr> values_b = [], nextFree = 0,
                          fields_b = replicate nf (unsafeUint32Array (blockSize st)),
                          rawFields = replicate nr (unsafeUint32Array (blockSize st)),
                          freeList = Stack_new (blockSize st), firstNextFree = 0 \<rparr>],
                     blocksAvail := avail_add blockId (blocksAvail st) \<rparr>))
      else Inl OutOfMemory)"

subsection \<open>alloc\<close>

text \<open>
  The first lines of the allocating branch: take the index from the free list or from
  \<^verbatim>\<open>nextFree\<close>, take the block out of \<^verbatim>\<open>blocksAvail\<close> when it is now full,
  and store the value.
\<close>

definition alloc_slot :: "'v pointer_set \<Rightarrow> nat \<Rightarrow> 'v \<Rightarrow> nat option \<times> 'v pointer_set" where
  "alloc_slot st this v =
     (let b = blocks st ! this;
          (index, fl, nf) =
             (if 0 < length_s (freeList b)
              then (fst (pop (freeList b)), snd (pop (freeList b)), nextFree b)
              else (Some (nextFree b), freeList b, nextFree b + 1));
          av = (if length_s fl = 0 \<and> nf \<ge> blockSize st
                then avail_delete this (blocksAvail st) else blocksAvail st)
      in (index,
          st\<lparr> blocks := (blocks st)
                  [this := b\<lparr> values_b := jsset_at (values_b b) index (Some v),
                              nextFree := nf, freeList := fl \<rparr>],
              blocksAvail := av \<rparr>))"

text \<open>
  The loop over \<^verbatim>\<open>Object.entries(refs)\<close>; the argument is the list of the entries in
  that order. \<^verbatim>\<open>writes\<close> is a plain array, one entry for each slab.
\<close>

fun ref_writes ::
  "(string \<times> int) list \<Rightarrow> (string \<times> int) list \<Rightarrow> int option list \<Rightarrow> error + int option list" where
  "ref_writes nm [] writes = Inr writes"
| "ref_writes nm ((k, p) # rest) writes =
     (case map_of nm k of
        None \<Rightarrow> Inl (UnknownPointerField k)
      | Some fieldId \<Rightarrow>
          if fieldId < 0 then Inl (RawAsPointer k)
          else ref_writes nm rest (jsset writes (nat fieldId) (Some p)))"

fun raw_writes ::
  "(string \<times> int) list \<Rightarrow> (string \<times> int) list \<Rightarrow> int option list \<Rightarrow> error + int option list" where
  "raw_writes nm [] writes = Inr writes"
| "raw_writes nm ((k, p) # rest) writes =
     (case map_of nm k of
        None \<Rightarrow> Inl (UnknownRawField k)
      | Some fieldId \<Rightarrow>
          if fieldId \<ge> 0 then Inl (PointerAsRaw k)
          else raw_writes nm rest (jsset writes (nat (js_not fieldId)) (Some p)))"

text \<open>
  \<^verbatim>\<open>for (let i = 0; i < writes.length; i++) slabs[i][index] = writes[i]\<close>, from
  position \<open>i\<close> on. A hole of \<^verbatim>\<open>writes\<close> is written as 0; a slab that does not exist
  makes the assignment a type error, after the writes before it.
\<close>

fun write_slabs ::
  "32 word list list \<Rightarrow> nat option \<Rightarrow> int option list \<Rightarrow> nat \<Rightarrow> error option \<times> 32 word list list" where
  "write_slabs slabs index [] i = (None, slabs)"
| "write_slabs slabs index (w # ws) i =
     (if i < length slabs
      then write_slabs
             (slabs[i := typed_set_at (slabs ! i) index
                           (word_of_int (case w of None \<Rightarrow> 0 | Some p \<Rightarrow> p))])
             index ws (i + 1)
      else (Some JsTypeError, slabs))"

definition set_fields :: "'v pointer_set \<Rightarrow> nat \<Rightarrow> 32 word list list \<Rightarrow> 'v pointer_set" where
  "set_fields st this slabs =
     st\<lparr>blocks := (blocks st)[this := (blocks st ! this)\<lparr>fields_b := slabs\<rparr>]\<rparr>"

definition set_rawFields :: "'v pointer_set \<Rightarrow> nat \<Rightarrow> 32 word list list \<Rightarrow> 'v pointer_set" where
  "set_rawFields st this slabs =
     st\<lparr>blocks := (blocks st)[this := (blocks st ! this)\<lparr>rawFields := slabs\<rparr>]\<rparr>"

text \<open>
  The allocating branch of \<^verbatim>\<open>alloc\<close>, on the block \<open>this\<close>. An error comes with the
  state at the throw.
\<close>

definition alloc_here ::
  "'v pointer_set \<Rightarrow> nat \<Rightarrow> 'v \<Rightarrow> (string \<times> int) list option \<Rightarrow> (string \<times> int) list option
     \<Rightarrow> (error \<times> 'v pointer_set) + (int \<times> 'v pointer_set)" where
  "alloc_here st this v refs raw =
     (let (index, st1) = alloc_slot st this v;
          pointer = getPointer st (int this) (case index of None \<Rightarrow> 0 | Some i \<Rightarrow> int i);
          b1 = blocks st1 ! this
      in case (case refs of None \<Rightarrow> Inr (replicate (length (fields_b b1)) (Some 0))
               | Some r \<Rightarrow> ref_writes (names st) r (replicate (length (fields_b b1)) (Some 0))) of
           Inl e \<Rightarrow> Inl (e, st1)
         | Inr writes \<Rightarrow>
             (case write_slabs (fields_b b1) index writes 0 of
                (Some e, slabs) \<Rightarrow> Inl (e, set_fields st1 this slabs)
              | (None, slabs) \<Rightarrow>
                  (let st2 = set_fields st1 this slabs in
                   case (case raw of None \<Rightarrow> Inr (replicate (length (rawFields b1)) (Some 0))
                         | Some r \<Rightarrow> raw_writes (names st) r (replicate (length (rawFields b1)) (Some 0))) of
                     Inl e \<Rightarrow> Inl (e, st2)
                   | Inr rawWrites \<Rightarrow>
                       (case write_slabs (rawFields b1) index rawWrites 0 of
                          (Some e, rslabs) \<Rightarrow> Inl (e, set_rawFields st2 this rslabs)
                        | (None, rslabs) \<Rightarrow> Inr (pointer, set_rawFields st2 this rslabs)))))"

text \<open>
  \<^verbatim>\<open>alloc\<close>, called on the block \<open>this\<close> (the public handle is block 0). When the
  block is full the call goes on to the first block of \<^verbatim>\<open>blocksAvail\<close>, or to a new
  block. The result is \<^const>\<open>None\<close> when the calls never end.
\<close>

partial_function (option) alloc ::
  "'v pointer_set \<Rightarrow> nat \<Rightarrow> 'v \<Rightarrow> (string \<times> int) list option \<Rightarrow> (string \<times> int) list option
     \<Rightarrow> ((error \<times> 'v pointer_set) + (int \<times> 'v pointer_set)) option" where
  "alloc st this v refs raw =
     (if nextFree (blocks st ! this) < blockSize st \<or> 0 < length_s (freeList (blocks st ! this))
      then Some (alloc_here st this v refs raw)
      else (case blocksAvail st of
              b # _ \<Rightarrow> alloc st b v refs raw
            | [] \<Rightarrow>
                (case PointerSetBlock_new st of
                   Inl e \<Rightarrow> Some (Inl (e, st))
                 | Inr st' \<Rightarrow> alloc st' (length (blocks st)) v refs raw)))"

declare alloc.simps [code]

subsection \<open>free, erase and wipeBlock\<close>

definition nullPointer :: int where
  "nullPointer = 0"

text \<open>
  A method called with a pointer runs on the block that the pointer names:
  \<^verbatim>\<open>this.blocks[blockId]\<close>, a type error when there is no such block.
\<close>

definition owner :: "'v pointer_set \<Rightarrow> int \<Rightarrow> nat option" where
  "owner st pointer =
     (let blockId = getBlockId st pointer in
      if 0 \<le> blockId \<and> nat blockId < length (blocks st) then Some (nat blockId) else None)"

definition free_block :: "nat \<Rightarrow> nat \<Rightarrow> 'v block \<Rightarrow> 'v block" where
  "free_block this index b =
     (if int (length_s (freeList b)) + int (firstNextFree b) = int (nextFree b) - 1
      then b\<lparr> freeList := (freeList b)\<lparr>length_s := 0\<rparr>,
              nextFree := firstNextFree b,
              values_b := (if this = 0 then [None] else []) \<rparr>
      else if int index = int (nextFree b) - 1
      then b\<lparr> nextFree := nextFree b - 1, values_b := butlast (values_b b) \<rparr>
      else b\<lparr> freeList := push (freeList b) index,
              values_b := jsset (values_b b) index None \<rparr>)"

definition free :: "'v pointer_set \<Rightarrow> int \<Rightarrow> (error \<times> 'v pointer_set) + (unit \<times> 'v pointer_set)" where
  "free st pointer =
     (if pointer = nullPointer then Inl (FreeNull, st)
      else case owner st pointer of
        None \<Rightarrow> Inl (JsTypeError, st)
      | Some this \<Rightarrow>
          (let b = blocks st ! this; index = nat (getIndex st pointer) in
           if jsget (values_b b) index = None then Inr ((), st)
           else Inr ((), st\<lparr> blocks := (blocks st)[this := free_block this index b],
                              blocksAvail := avail_add this (blocksAvail st) \<rparr>)))"

definition zero_at :: "nat \<Rightarrow> 32 word list list \<Rightarrow> 32 word list list" where
  "zero_at index slabs = map (\<lambda>slab. typed_set slab index 0) slabs"

definition erase :: "'v pointer_set \<Rightarrow> int \<Rightarrow> (error \<times> 'v pointer_set) + (unit \<times> 'v pointer_set)" where
  "erase st pointer =
     (if pointer = nullPointer then Inl (EraseNull, st)
      else case owner st pointer of
        None \<Rightarrow> Inl (JsTypeError, st)
      | Some this \<Rightarrow>
          (let b = blocks st ! this; index = nat (getIndex st pointer) in
           if jsget (values_b b) index = None then Inr ((), st)
           else case free st pointer of
             Inl e \<Rightarrow> Inl e
           | Inr (u, st1) \<Rightarrow>
               (let b1 = blocks st1 ! this in
                Inr ((), st1\<lparr>blocks := (blocks st1)
                        [this := b1\<lparr> fields_b := zero_at index (fields_b b1),
                                     rawFields := zero_at index (rawFields b1) \<rparr>]\<rparr>))))"

definition wipeBlock :: "'v pointer_set \<Rightarrow> nat \<Rightarrow> 'v pointer_set" where
  "wipeBlock st this =
     (let b = blocks st ! this in
      st\<lparr> blocks := (blocks st)
             [this := b\<lparr> fields_b := map (\<lambda>slab. replicate (length slab) 0) (fields_b b),
                         rawFields := map (\<lambda>slab. replicate (length slab) 0) (rawFields b),
                         values_b := (if this = 0 then [None] else []),
                         freeList := (freeList b)\<lparr>length_s := 0\<rparr>,
                         nextFree := firstNextFree b \<rparr>],
          blocksAvail := avail_add this (blocksAvail st) \<rparr>)"

subsection \<open>The accessors\<close>

text \<open>
  \<^verbatim>\<open>noNullPointer(p, v)\<close>: the second argument says whether a value was given.
\<close>

definition noNullPointer :: "int \<Rightarrow> bool \<Rightarrow> error option" where
  "noNullPointer p given =
     (if p = 0 then (if given then Some WriteToNull else Some ReadFromNull) else None)"

text \<open>
  \<^verbatim>\<open>ref(pointer, field)\<close> and \<^verbatim>\<open>ref(pointer, field, target)\<close>. The result of a read
  is \<^const>\<open>None\<close> for \<^verbatim>\<open>undefined\<close>, when the index is past the end of the slab.
\<close>

definition ref ::
  "'v pointer_set \<Rightarrow> int \<Rightarrow> string \<Rightarrow> int option
     \<Rightarrow> (error \<times> 'v pointer_set) + (int option \<times> 'v pointer_set)" where
  "ref st pointer field target =
     (case noNullPointer pointer (target \<noteq> None) of
        Some e \<Rightarrow> Inl (e, st)
      | None \<Rightarrow>
          (let index = nat (getIndex st pointer);
               fieldId = map_of (names st) field
           in if (case fieldId of None \<Rightarrow> False | Some n \<Rightarrow> n < 0)
              then Inl (RawAsPointer field, st)
              else case owner st pointer of
                None \<Rightarrow> Inl (JsTypeError, st)
              | Some bid \<Rightarrow>
                  (case (case fieldId of None \<Rightarrow> None
                         | Some n \<Rightarrow> typed_get (fields_b (blocks st ! bid)) (nat n)) of
                     None \<Rightarrow> Inl (UnknownPointerField field, st)
                   | Some slab \<Rightarrow>
                       (case target of
                          None \<Rightarrow> Inr (map_option uint (typed_get slab index), st)
                        | Some t \<Rightarrow>
                            Inr (Some t,
                                 set_fields st bid
                                   ((fields_b (blocks st ! bid))
                                      [nat (the fieldId) := typed_set slab index (word_of_int t)]))))))"

definition raw ::
  "'v pointer_set \<Rightarrow> int \<Rightarrow> string \<Rightarrow> int option
     \<Rightarrow> (error \<times> 'v pointer_set) + (int option \<times> 'v pointer_set)" where
  "raw st pointer field val =
     (case noNullPointer pointer (val \<noteq> None) of
        Some e \<Rightarrow> Inl (e, st)
      | None \<Rightarrow>
          (let index = nat (getIndex st pointer);
               fieldId = map_of (names st) field
           in if (case fieldId of None \<Rightarrow> False | Some n \<Rightarrow> n \<ge> 0)
              then Inl (PointerAsRaw field, st)
              else case owner st pointer of
                None \<Rightarrow> Inl (JsTypeError, st)
              | Some bid \<Rightarrow>
                  (case (case fieldId of None \<Rightarrow> None
                         | Some n \<Rightarrow> typed_get (rawFields (blocks st ! bid)) (nat (js_not n))) of
                     None \<Rightarrow> Inl (UnknownRawField field, st)
                   | Some slab \<Rightarrow>
                       (case val of
                          None \<Rightarrow> Inr (map_option uint (typed_get slab index), st)
                        | Some t \<Rightarrow>
                            Inr (Some t,
                                 set_rawFields st bid
                                   ((rawFields (blocks st ! bid))
                                      [nat (js_not (the fieldId)) := typed_set slab index (word_of_int t)]))))))"

definition value_p ::
  "'v pointer_set \<Rightarrow> int \<Rightarrow> 'v option \<Rightarrow> (error \<times> 'v pointer_set) + ('v option \<times> 'v pointer_set)" where
  "value_p st pointer val =
     (case noNullPointer pointer (val \<noteq> None) of
        Some e \<Rightarrow> Inl (e, st)
      | None \<Rightarrow>
          (let index = nat (getIndex st pointer) in
           case owner st pointer of
             None \<Rightarrow> Inl (JsTypeError, st)
           | Some bid \<Rightarrow>
               (case val of
                  Some v \<Rightarrow>
                    Inr (Some v,
                         st\<lparr>blocks := (blocks st)
                              [bid := (blocks st ! bid)
                                 \<lparr>values_b := jsset (values_b (blocks st ! bid)) index (Some v)\<rparr>]\<rparr>)
                | None \<Rightarrow> Inr (jsget (values_b (blocks st ! bid)) index, st))))"

subsection \<open>refAll and rawAll\<close>

text \<open>
  What a bulk call returns: the object it was given, or a new object with one entry for
  each field name of the kind (the value \<^const>\<open>None\<close> is \<^verbatim>\<open>undefined\<close>).
\<close>

datatype bulk = Given "(string \<times> int) list" | Snapshot "(string \<times> int option) list"

text \<open>The loop of a bulk set of references, over \<^verbatim>\<open>Object.entries(refs)\<close>.\<close>

fun refAll_set ::
  "(string \<times> int) list \<Rightarrow> nat \<Rightarrow> (string \<times> int) list \<Rightarrow> 32 word list list
     \<Rightarrow> error option \<times> 32 word list list" where
  "refAll_set nm index [] slabs = (None, slabs)"
| "refAll_set nm index ((f, p) # rest) slabs =
     (case map_of nm f of
        None \<Rightarrow> (Some (UnknownPointerField f), slabs)
      | Some fieldId \<Rightarrow>
          if fieldId < 0 then (Some (RawAsPointer f), slabs)
          else (case typed_get slabs (nat fieldId) of
                  None \<Rightarrow> (Some JsTypeError, slabs)
                | Some slab \<Rightarrow>
                    refAll_set nm index rest
                      (slabs[nat fieldId := typed_set slab index (word_of_int p)])))"

fun rawAll_set ::
  "(string \<times> int) list \<Rightarrow> nat \<Rightarrow> (string \<times> int) list \<Rightarrow> 32 word list list
     \<Rightarrow> error option \<times> 32 word list list" where
  "rawAll_set nm index [] slabs = (None, slabs)"
| "rawAll_set nm index ((f, num) # rest) slabs =
     (case map_of nm f of
        None \<Rightarrow> (Some (UnknownRawField f), slabs)
      | Some fieldId \<Rightarrow>
          if fieldId \<ge> 0 then (Some (PointerAsRaw f), slabs)
          else (case typed_get slabs (nat (js_not fieldId)) of
                  None \<Rightarrow> (Some JsTypeError, slabs)
                | Some slab \<Rightarrow>
                    rawAll_set nm index rest
                      (slabs[nat (js_not fieldId) := typed_set slab index (word_of_int num)])))"

text \<open>The loops of a bulk get, over \<^verbatim>\<open>Object.entries(this.names)\<close>.\<close>

fun refAll_get ::
  "32 word list list \<Rightarrow> nat \<Rightarrow> (string \<times> int) list \<Rightarrow> error + (string \<times> int option) list" where
  "refAll_get slabs index [] = Inr []"
| "refAll_get slabs index ((f, fid) # rest) =
     (if fid < 0 then refAll_get slabs index rest
      else (case typed_get slabs (nat fid) of
              None \<Rightarrow> Inl JsTypeError
            | Some slab \<Rightarrow>
                (case refAll_get slabs index rest of
                   Inl e \<Rightarrow> Inl e
                 | Inr acc \<Rightarrow> Inr ((f, map_option uint (typed_get slab index)) # acc))))"

fun rawAll_get ::
  "32 word list list \<Rightarrow> nat \<Rightarrow> (string \<times> int) list \<Rightarrow> error + (string \<times> int option) list" where
  "rawAll_get slabs index [] = Inr []"
| "rawAll_get slabs index ((f, fid) # rest) =
     (if fid \<ge> 0 then rawAll_get slabs index rest
      else (case typed_get slabs (nat (js_not fid)) of
              None \<Rightarrow> Inl JsTypeError
            | Some slab \<Rightarrow>
                (case rawAll_get slabs index rest of
                   Inl e \<Rightarrow> Inl e
                 | Inr acc \<Rightarrow> Inr ((f, map_option uint (typed_get slab index)) # acc))))"

definition refAll ::
  "'v pointer_set \<Rightarrow> int \<Rightarrow> (string \<times> int) list option
     \<Rightarrow> (error \<times> 'v pointer_set) + (bulk \<times> 'v pointer_set)" where
  "refAll st pointer refs =
     (case noNullPointer pointer (refs \<noteq> None) of
        Some e \<Rightarrow> Inl (e, st)
      | None \<Rightarrow>
          (case owner st pointer of
             None \<Rightarrow> Inl (JsTypeError, st)
           | Some this \<Rightarrow>
               (let b = blocks st ! this; index = nat (getIndex st pointer) in
                if jsget (values_b b) index = None then
                  (case refs of
                     Some r \<Rightarrow> Inr (Given r, st)
                   | None \<Rightarrow>
                       Inr (Snapshot (map (\<lambda>(f, fid). (f, Some 0))
                                        (filter (\<lambda>(f, fid). fid \<ge> 0) (names st))), st))
                else
                  (case refs of
                     Some r \<Rightarrow>
                       (case refAll_set (names st) index r (fields_b b) of
                          (Some e, slabs) \<Rightarrow> Inl (e, set_fields st this slabs)
                        | (None, slabs) \<Rightarrow> Inr (Given r, set_fields st this slabs))
                   | None \<Rightarrow>
                       (case refAll_get (fields_b b) index (names st) of
                          Inl e \<Rightarrow> Inl (e, st)
                        | Inr snap \<Rightarrow> Inr (Snapshot snap, st))))))"

definition rawAll ::
  "'v pointer_set \<Rightarrow> int \<Rightarrow> (string \<times> int) list option
     \<Rightarrow> (error \<times> 'v pointer_set) + (bulk \<times> 'v pointer_set)" where
  "rawAll st pointer raws =
     (case noNullPointer pointer (raws \<noteq> None) of
        Some e \<Rightarrow> Inl (e, st)
      | None \<Rightarrow>
          (case owner st pointer of
             None \<Rightarrow> Inl (JsTypeError, st)
           | Some this \<Rightarrow>
               (let b = blocks st ! this; index = nat (getIndex st pointer) in
                if jsget (values_b b) index = None then
                  (case raws of
                     Some r \<Rightarrow> Inr (Given r, st)
                   | None \<Rightarrow>
                       Inr (Snapshot (map (\<lambda>(f, fid). (f, Some 0))
                                        (filter (\<lambda>(f, fid). fid < 0) (names st))), st))
                else
                  (case raws of
                     Some r \<Rightarrow>
                       (case rawAll_set (names st) index r (rawFields b) of
                          (Some e, slabs) \<Rightarrow> Inl (e, set_rawFields st this slabs)
                        | (None, slabs) \<Rightarrow> Inr (Given r, set_rawFields st this slabs))
                   | None \<Rightarrow>
                       (case rawAll_get (rawFields b) index (names st) of
                          Inl e \<Rightarrow> Inl (e, st)
                        | Inr snap \<Rightarrow> Inr (Snapshot snap, st))))))"

subsection \<open>Counting and dropping blocks\<close>

text \<open>\<^verbatim>\<open>this.nextFree - this.freeList.length\<close>, of one block.\<close>

definition entryCount_b :: "'v block \<Rightarrow> int" where
  "entryCount_b b = int (nextFree b) - int (length_s (freeList b))"

definition entryCount :: "'v pointer_set \<Rightarrow> nat \<Rightarrow> error + int" where
  "entryCount st blockId =
     (if blockId < length (blocks st) then Inr (entryCount_b (blocks st ! blockId))
      else Inl JsTypeError)"

definition available :: "'v pointer_set \<Rightarrow> nat \<Rightarrow> error + int" where
  "available st blockId =
     (if blockId < length (blocks st)
      then Inr (int (blockSize st) - entryCount_b (blocks st ! blockId))
      else Inl JsTypeError)"

definition size_p :: "'v pointer_set \<Rightarrow> int" where
  "size_p st = sum_list (map entryCount_b (blocks st))"

definition totalAvailable :: "'v pointer_set \<Rightarrow> int" where
  "totalAvailable st = sum_list (map (\<lambda>b. int (blockSize st) - entryCount_b b) (blocks st))"

definition blocksCount :: "'v pointer_set \<Rightarrow> nat" where
  "blocksCount st = length (blocks st)"

text \<open>\<^verbatim>\<open>drop()\<close>, called on the block \<open>this\<close>.\<close>

definition drop_p :: "'v pointer_set \<Rightarrow> nat \<Rightarrow> (error \<times> 'v pointer_set) + (unit \<times> 'v pointer_set)" where
  "drop_p st this =
     (if int this = int (length (blocks st)) - 1 then
        (if this = 0 then Inr ((), wipeBlock st this)
         else Inr ((), st\<lparr> blocksAvail := avail_delete this (blocksAvail st),
                            blocks := butlast (blocks st) \<rparr>))
      else Inl (OnlyFinalBlock, st))"

text \<open>
  The loop of \<^verbatim>\<open>dropEmpty\<close>,
  \<^verbatim>\<open>for (let i = this.blocks.length - 1; i > 0; i--)\<close>, from \<open>i\<close> down.
\<close>

fun dropEmpty_from :: "'v pointer_set \<Rightarrow> nat \<Rightarrow> (error \<times> 'v pointer_set) + (unit \<times> 'v pointer_set)" where
  "dropEmpty_from st 0 = Inr ((), st)"
| "dropEmpty_from st (Suc n) =
     (if Suc n < length (blocks st) then
        (if entryCount_b (blocks st ! Suc n) = 0 then
           (case drop_p st (Suc n) of
              Inl e \<Rightarrow> Inl e
            | Inr (u, st') \<Rightarrow> dropEmpty_from st' n)
         else dropEmpty_from st n)
      else Inl (JsTypeError, st))"

definition dropEmpty :: "'v pointer_set \<Rightarrow> (error \<times> 'v pointer_set) + (unit \<times> 'v pointer_set)" where
  "dropEmpty st = dropEmpty_from st (length (blocks st) - 1)"

section \<open>Running calls one after the other\<close>

text \<open>The state after a call, whether it returned or threw.\<close>

definition state_of :: "(error \<times> 's) + ('r \<times> 's) \<Rightarrow> 's" where
  "state_of r = (case r of Inl (e, s) \<Rightarrow> s | Inr (x, s) \<Rightarrow> s)"

text \<open>
  \<^verbatim>\<open>store.alloc(v)\<close> on the public handle for each value of a list in turn; the result
  is the list of the pointers returned and the last state, or \<^const>\<open>None\<close> when a call
  throws or does not return.
\<close>

fun alloc_all :: "'v list \<Rightarrow> 'v pointer_set \<Rightarrow> (int list \<times> 'v pointer_set) option" where
  "alloc_all [] st = Some ([], st)"
| "alloc_all (v # vs) st =
     (case alloc st 0 v None None of
        Some (Inr (p, st')) \<Rightarrow>
          (case alloc_all vs st' of
             Some (ps, st'') \<Rightarrow> Some (p # ps, st'')
           | None \<Rightarrow> None)
      | _ \<Rightarrow> None)"

text \<open>\<^verbatim>\<open>new PointerSet(fields, blockSize, rawFields)\<close>, when it does not throw.\<close>

definition fresh :: "string list \<Rightarrow> nat \<Rightarrow> string list option \<Rightarrow> 'v pointer_set" where
  "fresh fs bs rfs = projr (PointerSet_new fs (Some bs) rfs)"

text \<open>What the capacity test reads: \<^verbatim>\<open>available(0)\<close> and \<^verbatim>\<open>blocksCount()\<close>.\<close>

definition counts :: "'v pointer_set \<Rightarrow> (error + int) \<times> nat" where
  "counts st = (available st 0, blocksCount st)"

text \<open>
  A set with block size 2 after \<^verbatim>\<open>alloc('a')\<close> and \<^verbatim>\<open>alloc('b')\<close>: the root block is
  full and block 1 holds one entry.
\<close>

definition two_blocks :: "string pointer_set" where
  "two_blocks = snd (the (alloc_all [''a'', ''b''] (fresh [''x''] 2 None)))"

text \<open>
  A set with block size 2 after four calls of \<^verbatim>\<open>alloc\<close>, which return the pointers
  1, 256, 257 and 512, and then \<^verbatim>\<open>free(256)\<close> and \<^verbatim>\<open>free(257)\<close>: block 1 is empty
  and block 2, the last one, holds one entry.
\<close>

definition four_allocs :: "string pointer_set" where
  "four_allocs = snd (the (alloc_all [''a'', ''b'', ''c'', ''d''] (fresh [''x''] 2 None)))"

definition hole_store :: "string pointer_set" where
  "hole_store = state_of (free (state_of (free four_allocs 256)) 257)"

text \<open>
  The list of the README, with fields \<^verbatim>\<open>['next', 'prev']\<close> and block size 256, after
  \<^verbatim>\<open>A = alloc('A')\<close>, \<^verbatim>\<open>B = alloc('B')\<close> (the pointers 1 and 2),
  \<^verbatim>\<open>ref(A, 'next', B)\<close> and \<^verbatim>\<open>ref(B, 'prev', A)\<close>.
\<close>

definition linked_pair :: "string pointer_set" where
  "linked_pair =
     state_of (ref (state_of (ref (snd (the (alloc_all [''A'', ''B'']
                                               (fresh [''next'', ''prev''] 256 None))))
                                  1 ''next'' (Some 2)))
                   2 ''prev'' (Some 1))"

text \<open>The same list after \<^verbatim>\<open>free(A)\<close>.\<close>

definition linked_pair_freed :: "string pointer_set" where
  "linked_pair_freed = state_of (free linked_pair 1)"

section \<open>Allocation that throws\<close>

text \<open>The errors that \<^verbatim>\<open>alloc\<close> throws at a key of \<^verbatim>\<open>refs\<close> or \<^verbatim>\<open>raw\<close>.\<close>

definition field_error :: "error \<Rightarrow> bool" where
  "field_error e =
     (case e of
        UnknownPointerField k \<Rightarrow> True
      | RawAsPointer k \<Rightarrow> True
      | UnknownRawField k \<Rightarrow> True
      | PointerAsRaw k \<Rightarrow> True
      | _ \<Rightarrow> False)"

text \<open>
  What the calls of the source keep true of a set: the blocks of \<^verbatim>\<open>blocksAvail\<close> are
  blocks of the list, and no free list is longer than its array.
\<close>

definition stack_fits :: "Stack \<Rightarrow> bool" where
  "stack_fits s =
     (case data s of
        Uint8Array xs \<Rightarrow> length_s s \<le> length xs
      | Uint16Array xs \<Rightarrow> length_s s \<le> length xs)"

definition avail_ok :: "'v pointer_set \<Rightarrow> bool" where
  "avail_ok st = list_all (\<lambda>b. b < length (blocks st)) (blocksAvail st)"

definition stacks_ok :: "'v pointer_set \<Rightarrow> bool" where
  "stacks_ok st = list_all (\<lambda>b. stack_fits (freeList b)) (blocks st)"

text \<open>
  The entry count of block \<open>b\<close> before a call that may have made the block: a block that
  did not exist yet counts as the empty block it is made as.
\<close>

definition entryCount_before :: "'v pointer_set \<Rightarrow> nat \<Rightarrow> int" where
  "entryCount_before st b = (if b < length (blocks st) then entryCount_b (blocks st ! b) else 0)"

text \<open>A slot was taken for the value \<open>v\<close> between the states \<open>st\<close> and \<open>st'\<close>.\<close>

definition slot_taken :: "'v pointer_set \<Rightarrow> 'v pointer_set \<Rightarrow> 'v \<Rightarrow> bool" where
  "slot_taken st st' v \<longleftrightarrow>
     size_p st' = size_p st + 1
     \<and> (\<exists>b i. b < length (blocks st')
              \<and> jsget (values_b (blocks st' ! b)) i = Some v
              \<and> entryCount_b (blocks st' ! b) = entryCount_before st b + 1)"

text \<open>
  The store of the test of basic behaviour, \<^verbatim>\<open>new PointerSet(['x', 'y'], 10, ['p', 'q'])\<close>
  after \<^verbatim>\<open>p = store.alloc('true')\<close>, and the same store after
  \<^verbatim>\<open>store.alloc('badptr', { p }, {})\<close> has thrown.
\<close>

definition basic_store :: "string pointer_set" where
  "basic_store = snd (the (alloc_all [''true''] (fresh [''x'', ''y''] 10 (Some [''p'', ''q'']))))"

definition basic_store_thrown :: "string pointer_set" where
  "basic_store_thrown =
     state_of (the (alloc basic_store 0 ''badptr'' (Some [(''p'', 1)]) (Some [])))"

section \<open>Bulk writes and single writes\<close>

text \<open>
  What the README says a bulk set does: iterate over the keys in \<^verbatim>\<open>refs\<close>, calling
  \<^verbatim>\<open>store.ref(pointer, key, refs[key])\<close>; and the same for \<^verbatim>\<open>raw\<close>. A call that
  throws ends the iteration.
\<close>

fun ref_each ::
  "'v pointer_set \<Rightarrow> int \<Rightarrow> (string \<times> int) list \<Rightarrow> (error \<times> 'v pointer_set) + (unit \<times> 'v pointer_set)" where
  "ref_each st p [] = Inr ((), st)"
| "ref_each st p ((k, t) # rest) =
     (case ref st p k (Some t) of
        Inl e \<Rightarrow> Inl e
      | Inr (r, st') \<Rightarrow> ref_each st' p rest)"

fun raw_each ::
  "'v pointer_set \<Rightarrow> int \<Rightarrow> (string \<times> int) list \<Rightarrow> (error \<times> 'v pointer_set) + (unit \<times> 'v pointer_set)" where
  "raw_each st p [] = Inr ((), st)"
| "raw_each st p ((k, t) # rest) =
     (case raw st p k (Some t) of
        Inl e \<Rightarrow> Inl e
      | Inr (r, st') \<Rightarrow> raw_each st' p rest)"

text \<open>The result of a bulk set when the iteration ends with the result \<open>r\<close>.\<close>

definition given :: "(string \<times> int) list \<Rightarrow> (error \<times> 's) + (unit \<times> 's) \<Rightarrow> (error \<times> 's) + (bulk \<times> 's)" where
  "given kvs r = (case r of Inl e \<Rightarrow> Inl e | Inr (u, st) \<Rightarrow> Inr (Given kvs, st))"

text \<open>
  What the constructors make true of block \<open>b\<close>: every field id of \<^verbatim>\<open>names\<close> is the
  position of a slab of its kind.
\<close>

definition names_ok :: "'v pointer_set \<Rightarrow> nat \<Rightarrow> bool" where
  "names_ok st b =
     list_all (\<lambda>(f, fid). if 0 \<le> fid then nat fid < length (fields_b (blocks st ! b))
                           else nat (js_not fid) < length (rawFields (blocks st ! b)))
       (names st)"

text \<open>
  The slab that a field id names: whether it is a slab of \<^verbatim>\<open>fields\<close>, and its position
  there (the id itself) or in \<^verbatim>\<open>rawFields\<close> (\<^verbatim>\<open>~id\<close>).
\<close>

definition slab_of :: "int \<Rightarrow> bool \<times> nat" where
  "slab_of fid = (if 0 \<le> fid then (True, nat fid) else (False, nat (js_not fid)))"

text \<open>
  What the constructor makes true of \<^verbatim>\<open>names\<close>: it is an object, so no name occurs
  twice, and every name has a slab of its own.
\<close>

definition names_inj :: "'v pointer_set \<Rightarrow> bool" where
  "names_inj st \<longleftrightarrow>
     distinct (map fst (names st)) \<and> distinct (map (\<lambda>(f, fid). slab_of fid) (names st))"

text \<open>Whether the slot of a pointer holds a value, in the block \<open>b\<close> that owns it.\<close>

definition occupied :: "'v pointer_set \<Rightarrow> nat \<Rightarrow> int \<Rightarrow> bool" where
  "occupied st b p = (jsget (values_b (blocks st ! b)) (nat (getIndex st p)) \<noteq> None)"

text \<open>The index of a pointer lies within every slab of block \<open>b\<close>.\<close>

definition index_ok :: "'v pointer_set \<Rightarrow> nat \<Rightarrow> int \<Rightarrow> bool" where
  "index_ok st b p =
     list_all (\<lambda>slab. nat (getIndex st p) < length slab)
       (fields_b (blocks st ! b) @ rawFields (blocks st ! b))"

text \<open>
  The store of the test of expansion, \<^verbatim>\<open>new PointerSet(['x'], 5, ['r'])\<close>, after
  \<^verbatim>\<open>alloc('keep')\<close>, \<^verbatim>\<open>alloc('freeme', { x: 1 }, { r: 404 })\<close> and
  \<^verbatim>\<open>alloc('last')\<close>, which return the pointers 1, 2 and 3; and the same store after
  \<^verbatim>\<open>free(2)\<close>.
\<close>

definition occupied_store :: "string pointer_set" where
  "occupied_store =
     state_of (the (alloc
       (state_of (the (alloc
          (state_of (the (alloc (fresh [''x''] 5 (Some [''r''])) 0 ''keep'' None None)))
          0 ''freeme'' (Some [(''x'', 1)]) (Some [(''r'', 404)]))))
       0 ''last'' None None))"

definition freed_store :: "string pointer_set" where
  "freed_store = state_of (free occupied_store 2)"

text \<open>
  The store \<^verbatim>\<open>new PointerSet(['x', 'y'], 5, ['p', 'q'])\<close> after \<^verbatim>\<open>alloc('keep')\<close>, which
  returns the pointer 1; and the same store after \<^verbatim>\<open>refAll(1, { x: 3, y: 4 })\<close> and
  after \<^verbatim>\<open>rawAll(1, { p: 12345, q: -1 })\<close>.
\<close>

definition wide_store :: "string pointer_set" where
  "wide_store =
     state_of (the (alloc (fresh [''x'', ''y''] 5 (Some [''p'', ''q''])) 0 ''keep'' None None))"

definition wide_store_refs :: "string pointer_set" where
  "wide_store_refs = state_of (refAll wide_store 1 (Some [(''x'', 3), (''y'', 4)]))"

definition wide_store_raws :: "string pointer_set" where
  "wide_store_raws = state_of (rawAll wide_store 1 (Some [(''p'', 12345), (''q'', - 1)]))"

section \<open>Views of a raw field\<close>

text \<open>
  Modelled from the spec: \<^verbatim>\<open>raw8\<close>, \<^verbatim>\<open>raw16\<close> and \<^verbatim>\<open>raw32\<close>, which are not in
  \<^verbatim>\<open>src/src/index.ts\<close> (the README and the tests use them). Every definition of this
  section follows the spec, section 4.4 and the property of byte-view aliasing.

  Modelled from the spec: the byte order of the platform. The memory of a typed array is
  a sequence of bytes, and the platform fixes the order of the bytes of a number. The
  digits of a number in base \<open>B\<close>, the lowest first, are its bytes (base 256) or
  half-words (base 65536) in the memory of a little-endian platform; a big-endian
  platform has them in the reverse order.
\<close>

datatype endian = LittleEndian | BigEndian

fun digits :: "nat \<Rightarrow> nat \<Rightarrow> nat \<Rightarrow> nat list" where
  "digits B 0 n = []"
| "digits B (Suc k) n = n mod B # digits B k (n div B)"

definition undigits :: "nat \<Rightarrow> nat list \<Rightarrow> nat" where
  "undigits B ds = foldr (\<lambda>d n. d + B * n) ds 0"

definition in_memory :: "endian \<Rightarrow> 'a list \<Rightarrow> 'a list" where
  "in_memory e xs = (case e of LittleEndian \<Rightarrow> xs | BigEndian \<Rightarrow> rev xs)"

definition bytes_of :: "endian \<Rightarrow> 32 word \<Rightarrow> 8 word list" where
  "bytes_of e w = in_memory e (map of_nat (digits 256 4 (unat w)))"

definition word_of_bytes :: "endian \<Rightarrow> 8 word list \<Rightarrow> 32 word" where
  "word_of_bytes e bs = of_nat (undigits 256 (map unat (in_memory e bs)))"

definition halves_of :: "endian \<Rightarrow> 32 word \<Rightarrow> 16 word list" where
  "halves_of e w = in_memory e (map of_nat (digits 65536 2 (unat w)))"

definition word_of_halves :: "endian \<Rightarrow> 16 word list \<Rightarrow> 32 word" where
  "word_of_halves e hs = of_nat (undigits 65536 (map unat (in_memory e hs)))"

text \<open>
  Modelled from the spec: the views are live, fixed-length views over the same storage as
  the uint32 slot of the raw field. A view is the place of that slot: the block, the raw
  slab and the index; what is read through it is read from the state at the time of the
  read.
\<close>

datatype view = View nat nat nat

text \<open>
  Modelled from the spec: \<^verbatim>\<open>raw8(pointer, field)\<close>, \<^verbatim>\<open>raw16(pointer, field)\<close> and
  \<^verbatim>\<open>raw32(pointer, field)\<close> take one of the names of the raw fields and return a view
  of the slot; the slot is found, and the arguments are checked, as \<^const>\<open>raw\<close> does
  for a read.
\<close>

definition raw_view ::
  "'v pointer_set \<Rightarrow> int \<Rightarrow> string \<Rightarrow> (error \<times> 'v pointer_set) + (view \<times> 'v pointer_set)" where
  "raw_view st pointer field =
     (case noNullPointer pointer False of
        Some e \<Rightarrow> Inl (e, st)
      | None \<Rightarrow>
          (let index = nat (getIndex st pointer);
               fieldId = map_of (names st) field
           in if (case fieldId of None \<Rightarrow> False | Some n \<Rightarrow> n \<ge> 0)
              then Inl (PointerAsRaw field, st)
              else case owner st pointer of
                None \<Rightarrow> Inl (JsTypeError, st)
              | Some bid \<Rightarrow>
                  (case (case fieldId of None \<Rightarrow> None
                         | Some n \<Rightarrow> typed_get (rawFields (blocks st ! bid)) (nat (js_not n))) of
                     None \<Rightarrow> Inl (UnknownRawField field, st)
                   | Some slab \<Rightarrow> Inr (View bid (nat (js_not (the fieldId))) index, st))))"

text \<open>Modelled from the spec: the uint32 slot that a view lies over, and a write of it.\<close>

fun view_word :: "'v pointer_set \<Rightarrow> view \<Rightarrow> 32 word option" where
  "view_word st (View b s i) =
     (if b < length (blocks st)
      then (case typed_get (rawFields (blocks st ! b)) s of
              None \<Rightarrow> None
            | Some slab \<Rightarrow> typed_get slab i)
      else None)"

fun view_put :: "'v pointer_set \<Rightarrow> view \<Rightarrow> 32 word \<Rightarrow> 'v pointer_set" where
  "view_put st (View b s i) w =
     (if b < length (blocks st) \<and> s < length (rawFields (blocks st ! b))
      then set_rawFields st b
             ((rawFields (blocks st ! b))[s := typed_set (rawFields (blocks st ! b) ! s) i w])
      else st)"

text \<open>
  Modelled from the spec: what the three views hold (4 bytes, 2 half-words, 1 word), and
  a write of element \<open>j\<close> of a view; a write past the fixed length changes nothing.
\<close>

definition raw8_read :: "endian \<Rightarrow> 'v pointer_set \<Rightarrow> view \<Rightarrow> 8 word list option" where
  "raw8_read e st v = map_option (bytes_of e) (view_word st v)"

definition raw16_read :: "endian \<Rightarrow> 'v pointer_set \<Rightarrow> view \<Rightarrow> 16 word list option" where
  "raw16_read e st v = map_option (halves_of e) (view_word st v)"

definition raw32_read :: "'v pointer_set \<Rightarrow> view \<Rightarrow> 32 word list option" where
  "raw32_read st v = map_option (\<lambda>w. [w]) (view_word st v)"

definition raw8_write :: "endian \<Rightarrow> 'v pointer_set \<Rightarrow> view \<Rightarrow> nat \<Rightarrow> 8 word \<Rightarrow> 'v pointer_set" where
  "raw8_write e st v j x =
     (case view_word st v of
        None \<Rightarrow> st
      | Some w \<Rightarrow> if j < 4 then view_put st v (word_of_bytes e ((bytes_of e w)[j := x])) else st)"

definition raw16_write :: "endian \<Rightarrow> 'v pointer_set \<Rightarrow> view \<Rightarrow> nat \<Rightarrow> 16 word \<Rightarrow> 'v pointer_set" where
  "raw16_write e st v j x =
     (case view_word st v of
        None \<Rightarrow> st
      | Some w \<Rightarrow> if j < 2 then view_put st v (word_of_halves e ((halves_of e w)[j := x])) else st)"

definition raw32_write :: "'v pointer_set \<Rightarrow> view \<Rightarrow> nat \<Rightarrow> 32 word \<Rightarrow> 'v pointer_set" where
  "raw32_write st v j x =
     (case view_word st v of
        None \<Rightarrow> st
      | Some w \<Rightarrow> if j < 1 then view_put st v x else st)"

text \<open>
  The views of a slot and \<^const>\<open>raw\<close> agree in a state: they all show one and the
  same 32-bit number.
\<close>

definition views_agree :: "endian \<Rightarrow> 'v pointer_set \<Rightarrow> int \<Rightarrow> string \<Rightarrow> view \<Rightarrow> bool" where
  "views_agree e st p f v \<longleftrightarrow>
     (\<exists>w. raw st p f None = Inr (Some (uint w), st)
          \<and> raw8_read e st v = Some (bytes_of e w)
          \<and> raw16_read e st v = Some (halves_of e w)
          \<and> raw32_read st v = Some [w]
          \<and> word_of_bytes e (bytes_of e w) = w
          \<and> word_of_halves e (halves_of e w) = w)"

text \<open>
  The store of the test of the views, \<^verbatim>\<open>new PointerSet([], 10, ['x'])\<close> after
  \<^verbatim>\<open>p = store.alloc(null)\<close>, which returns the pointer 1.
\<close>

definition views_store :: "unit pointer_set" where
  "views_store = snd (the (alloc_all [()] (fresh [] 10 (Some [''x'']))))"

section \<open>Facts about the codec\<close>

lemma or_low_bits:
  fixes i k :: int
  assumes "0 \<le> i" and "i < 2 ^ n"
  shows "(k * 2 ^ n) OR i = k * 2 ^ n + i"
proof -
  have i: "take_bit n i = i"
    using assms by (simp add: take_bit_eq_mod)
  have "push_bit n k AND take_bit n i = 0"
    by (rule bit_eqI) (auto simp: bit_simps)
  then have "push_bit n k + take_bit n i = push_bit n k OR take_bit n i"
    by (rule disjunctive_add_eq_or)
  then show ?thesis
    by (simp add: i push_bit_eq_mult)
qed

lemma and_low_bits:
  fixes i k :: int
  assumes "0 \<le> i" and "i < 2 ^ n"
  shows "(k * 2 ^ n + i) AND (2 ^ n - 1) = i"
proof -
  have "(k * 2 ^ n + i) AND mask n = take_bit n (k * 2 ^ n + i)"
    by (simp add: take_bit_eq_mask)
  also have "\<dots> = i"
    using assms by (simp add: take_bit_eq_mod)
  finally show ?thesis
    by (simp add: mask_eq_exp_minus_1)
qed

lemma PointerSet_new_codec:
  assumes "PointerSet_new fs bsa rfs = Inr st"
  shows "blockSize st = (case bsa of None \<Rightarrow> 256 | Some n \<Rightarrow> n)"
    and "blockSize st \<le> 65536"
    and "shift st = (if blockSize st \<le> 256 then 8 else 16)"
    and "mask_p st = (if blockSize st \<le> 256 then 255 else 65535)"
    and "shiftDownFix st = (if blockSize st \<le> 256 then 16777216 else 65536)"
    and "shiftUpFix st = 4294967296"
  using assms
  by (auto simp: PointerSet_new_def Let_def getWordSize_def max8_def max16_def max24_def max32_def
      mask8_def mask16_def
      split: if_splits sum.splits prod.splits option.splits)

lemma toInt32_id: "- 2147483648 \<le> x \<Longrightarrow> x < 2147483648 \<Longrightarrow> toInt32 x = x"
  by (simp add: toInt32_def)

lemma toInt32_hi:
  assumes "2147483648 \<le> x" and "x < 6442450944"
  shows "toInt32 x = x - 4294967296"
proof -
  have "(x + 2147483648) mod 4294967296 = (x + 2147483648 - 4294967296) mod 4294967296"
    by (simp only: minus_mod_self2)
  also have "\<dots> = x + 2147483648 - 4294967296"
    using assms by (intro mod_pos_pos_trivial) simp_all
  finally show ?thesis
    by (simp add: toInt32_def)
qed

lemma getPointer_value:
  assumes sh: "shift st = s" and up: "shiftUpFix st = 4294967296"
    and s: "s = 8 \<or> s = 16"
    and b: "0 \<le> b" "b < 2 ^ (32 - s)" and i: "0 \<le> i" "i < 2 ^ s"
  shows "getPointer st b i = (if b < 2 ^ (31 - s) then b else b - 2 ^ (32 - s)) * 2 ^ s + i"
proof -
  let ?k = "if b < 2 ^ (31 - s) then b else b - 2 ^ (32 - s)"
  have tb: "toInt32 b = b"
    using b s by (auto intro: toInt32_id)
  have sl: "js_shl b s = ?k * 2 ^ s"
    using b s by (auto simp: js_shl_def tb toInt32_id toInt32_hi)
  have f1: "toInt32 (if js_shl b s \<ge> 0 then js_shl b s else 4294967296 + js_shl b s) = ?k * 2 ^ s"
    using b s by (auto simp: sl toInt32_id toInt32_hi)
  have f2: "toInt32 i = i"
    using i s by (auto intro: toInt32_id)
  have f3: "?k * 2 ^ s OR i = ?k * 2 ^ s + i"
    using i by (rule or_low_bits)
  show ?thesis
    unfolding getPointer_def js_or_def Let_def sh up f1 f2 by (rule f3)
qed

lemma getBlockId_value:
  assumes sh: "shift st = s" and dn: "shiftDownFix st = 2 ^ (32 - s)"
    and s: "s = 8 \<or> s = 16"
    and b: "0 \<le> b" "b < 2 ^ (32 - s)" and i: "0 \<le> i" "i < 2 ^ s"
  shows "getBlockId st ((if b < 2 ^ (31 - s) then b else b - 2 ^ (32 - s)) * 2 ^ s + i) = b"
proof -
  let ?k = "if b < 2 ^ (31 - s) then b else b - 2 ^ (32 - s)"
  have "toInt32 (?k * 2 ^ s + i) = ?k * 2 ^ s + i"
    using b i s by (auto intro!: toInt32_id)
  moreover have "(?k * 2 ^ s + i) div 2 ^ s = ?k"
    using i by simp
  ultimately have "js_sar (?k * 2 ^ s + i) s = ?k"
    using s by (auto simp: js_sar_def)
  then show ?thesis
    using b s by (auto simp: getBlockId_def Let_def sh dn)
qed

lemma getIndex_value:
  assumes m: "mask_p st = 2 ^ s - 1"
    and s: "s = 8 \<or> s = 16"
    and b: "0 \<le> b" "b < 2 ^ (32 - s)" and i: "0 \<le> i" "i < 2 ^ s"
  shows "getIndex st ((if b < 2 ^ (31 - s) then b else b - 2 ^ (32 - s)) * 2 ^ s + i) = i"
proof -
  let ?k = "if b < 2 ^ (31 - s) then b else b - 2 ^ (32 - s)"
  have "toInt32 (?k * 2 ^ s + i) = ?k * 2 ^ s + i"
    using b i s by (auto intro!: toInt32_id)
  moreover have "toInt32 (2 ^ s - 1) = 2 ^ s - 1"
    using s by (auto intro!: toInt32_id)
  ultimately show ?thesis
    using and_low_bits [of i s ?k] i by (simp add: getIndex_def js_and_def m)
qed

text \<open>
  C1. For a pointer set that the constructor returned, and every block id and index in
  the range of its codec (a block id below \<open>2^24\<close> and an index below 256 when the block
  size is at most 256; a block id below \<open>2^16\<close> and an index below 65536 when it is
  larger), decoding the pointer that \<^const>\<open>getPointer\<close> returns gives the pair back.
\<close>

theorem codec_round_trip:
  assumes new: "PointerSet_new fs bsa rfs = Inr st"
    and nonneg: "0 \<le> b" "0 \<le> i"
    and small: "blockSize st \<le> 256 \<longrightarrow> b < 2 ^ 24 \<and> i < 256"
    and large: "256 < blockSize st \<longrightarrow> b < 2 ^ 16 \<and> i < 65536"
  shows "getBlockId st (getPointer st b i) = b \<and> getIndex st (getPointer st b i) = i"
proof (cases "blockSize st \<le> 256")
  case True
  then have c: "shift st = 8" "mask_p st = 2 ^ 8 - 1" "shiftDownFix st = 2 ^ (32 - 8)"
    "shiftUpFix st = 4294967296"
    using PointerSet_new_codec [OF new] by simp_all
  have r: "b < 2 ^ (32 - 8)" "i < 2 ^ 8"
    using small True by simp_all
  show ?thesis
    using getPointer_value [OF c(1) c(4) _ nonneg(1) r(1) nonneg(2) r(2)]
      getBlockId_value [OF c(1) c(3) _ nonneg(1) r(1) nonneg(2) r(2)]
      getIndex_value [OF c(2) _ nonneg(1) r(1) nonneg(2) r(2)]
    by simp
next
  case False
  then have c: "shift st = 16" "mask_p st = 2 ^ 16 - 1" "shiftDownFix st = 2 ^ (32 - 16)"
    "shiftUpFix st = 4294967296"
    using PointerSet_new_codec [OF new] by simp_all
  have r: "b < 2 ^ (32 - 16)" "i < 2 ^ 16"
    using large False by simp_all
  show ?thesis
    using getPointer_value [OF c(1) c(4) _ nonneg(1) r(1) nonneg(2) r(2)]
      getBlockId_value [OF c(1) c(3) _ nonneg(1) r(1) nonneg(2) r(2)]
      getIndex_value [OF c(2) _ nonneg(1) r(1) nonneg(2) r(2)]
    by simp
qed

lemma fresh_5: "PointerSet_new [''x''] (Some 5) None = Inr (fresh [''x''] 5 None :: 'v pointer_set)"
  by (simp add: fresh_def PointerSet_new_def getWordSize_def max8_def max16_def Let_def)

lemma fresh_1000: "PointerSet_new [] (Some 1000) None = Inr (fresh [] 1000 None :: 'v pointer_set)"
  by (simp add: fresh_def PointerSet_new_def getWordSize_def max8_def max16_def Let_def)

theorem codec_round_trip_witness:
  "PointerSet_new [''x''] (Some 5) None = Inr (fresh [''x''] 5 None :: string pointer_set)
   \<and> getBlockId (fresh [''x''] 5 None :: string pointer_set)
        (getPointer (fresh [''x''] 5 None :: string pointer_set) 16777215 123) = 16777215
   \<and> getIndex (fresh [''x''] 5 None :: string pointer_set)
        (getPointer (fresh [''x''] 5 None :: string pointer_set) 16777215 123) = 123
   \<and> PointerSet_new [] (Some 1000) None = Inr (fresh [] 1000 None :: string pointer_set)
   \<and> getBlockId (fresh [] 1000 None :: string pointer_set)
        (getPointer (fresh [] 1000 None :: string pointer_set) 65535 123) = 65535
   \<and> getIndex (fresh [] 1000 None :: string pointer_set)
        (getPointer (fresh [] 1000 None :: string pointer_set) 65535 123) = 123"
proof -
  have b5: "blockSize (fresh [''x''] 5 None :: string pointer_set) = 5"
    using PointerSet_new_codec(1) [OF fresh_5] by simp
  have b1000: "blockSize (fresh [] 1000 None :: string pointer_set) = 1000"
    using PointerSet_new_codec(1) [OF fresh_1000] by simp
  have "getBlockId (fresh [''x''] 5 None :: string pointer_set)
          (getPointer (fresh [''x''] 5 None :: string pointer_set) 16777215 123) = 16777215
        \<and> getIndex (fresh [''x''] 5 None :: string pointer_set)
          (getPointer (fresh [''x''] 5 None :: string pointer_set) 16777215 123) = 123"
    by (rule codec_round_trip [OF fresh_5]) (simp_all add: b5)
  moreover have "getBlockId (fresh [] 1000 None :: string pointer_set)
          (getPointer (fresh [] 1000 None :: string pointer_set) 65535 123) = 65535
        \<and> getIndex (fresh [] 1000 None :: string pointer_set)
          (getPointer (fresh [] 1000 None :: string pointer_set) 65535 123) = 123"
    by (rule codec_round_trip [OF fresh_1000]) (simp_all add: b1000)
  ultimately show ?thesis
    using fresh_5 fresh_1000 by simp
qed

text \<open>
  C5. \<^const>\<open>getPointer\<close> does not return an unsigned value when the shifted block id
  reaches the sign bit: adding \<^verbatim>\<open>shiftUpFix\<close> makes the shifted block id positive, and
  the \<^verbatim>\<open>| index\<close> that follows converts it to a signed 32-bit integer again. With a
  block size of 256, block id \<open>2^23\<close> and index 0 give \<open>- 2^31\<close>, and the pair of the
  repository's own test, block id \<open>2^24 - 1\<close> and index 123, gives \<open>- 133\<close>.
\<close>

theorem getPointer_negative:
  "getPointer (fresh [''x''] 256 None :: string pointer_set) 8388608 0 = - 2147483648
   \<and> getPointer (fresh [''x''] 256 None :: string pointer_set) 16777215 123 = - 133"
  by code_simp

section \<open>Facts about alloc\<close>

lemma alloc_never_returns:
  assumes full: "\<not> nextFree (blocks st ! 0) < blockSize st"
    and nofree: "length_s (freeList (blocks st ! 0)) = 0"
    and avail: "blocksAvail st = 0 # av"
  shows "alloc st 0 v refs raws = None"
proof (rule ccontr)
  assume "alloc st 0 v refs raws \<noteq> None"
  then obtain y where y: "alloc st 0 v refs raws = Some y"
    by auto
  have "\<not> (st = st \<and> (0::nat) = 0)"
  proof (rule alloc.raw_induct [where P = "\<lambda>s t v r w y. \<not> (s = st \<and> t = 0)", OF _ y])
    fix alloc' :: "'a pointer_set \<Rightarrow> nat \<Rightarrow> 'a \<Rightarrow> (string \<times> int) list option
        \<Rightarrow> (string \<times> int) list option \<Rightarrow> ((error \<times> 'a pointer_set) + (int \<times> 'a pointer_set)) option"
    fix s t v' r w z
    assume ih: "\<And>s t v r w y. alloc' s t v r w = Some y \<Longrightarrow> \<not> (s = st \<and> t = 0)"
      and body: "(if nextFree (blocks s ! t) < blockSize s \<or> 0 < length_s (freeList (blocks s ! t))
         then Some (alloc_here s t v' r w)
         else case blocksAvail s of
            [] \<Rightarrow> (case PointerSetBlock_new s of Inl e \<Rightarrow> Some (Inl (e, s))
                     | Inr st' \<Rightarrow> alloc' st' (length (blocks s)) v' r w)
          | b # x \<Rightarrow> alloc' s b v' r w) = Some z"
    show "\<not> (s = st \<and> t = 0)"
    proof
      assume "s = st \<and> t = 0"
      with body full nofree avail have "alloc' st 0 v' r w = Some z"
        by simp
      with ih show False
        by blast
    qed
  qed
  then show False
    by simp
qed

lemma PointerSet_new_root:
  assumes "PointerSet_new fs (Some bs) rfs = Inr st"
  shows "\<exists>slabs rslabs. blocks st =
           [\<lparr> values_b = [None], nextFree = 1, fields_b = slabs, rawFields = rslabs,
              freeList = Stack_new bs, firstNextFree = 1 \<rparr>]"
    and "blocksAvail st = [0]"
    and "blockSize st = bs"
  using assms
  by (auto simp: PointerSet_new_def Let_def split: if_splits sum.splits prod.splits option.splits)

lemma alloc_blockSize_1:
  assumes "PointerSet_new fs (Some 1) rfs = Inr st"
  shows "alloc st 0 v refs raws = None"
proof (rule alloc_never_returns)
  show "\<not> nextFree (blocks st ! 0) < blockSize st"
    using PointerSet_new_root [OF assms] by auto
  show "length_s (freeList (blocks st ! 0)) = 0"
    using PointerSet_new_root [OF assms] by (auto simp: Stack_new_def)
  show "blocksAvail st = 0 # []"
    using PointerSet_new_root [OF assms] by simp
qed


lemma write_slabs_fits:
  "i + length ws \<le> length slabs \<Longrightarrow>
     fst (write_slabs slabs index ws i) = None
     \<and> length (snd (write_slabs slabs index ws i)) = length slabs"
  by (induction ws arbitrary: slabs i) auto

lemma pointer_1:
  assumes "shift st = 8 \<or> shift st = 16" and "mask_p st = 255 \<or> mask_p st = 65535"
  shows "getPointer st 0 1 = 1" and "getIndex st 1 = 1" and "getBlockId st 1 = 0"
  using assms
  by (auto simp: getPointer_def getIndex_def getBlockId_def js_shl_def js_or_def js_and_def
      js_sar_def toInt32_def Let_def)

lemma nth_update_sel:
  assumes "sel (g (xs ! k)) = sel (xs ! k)"
  shows "sel ((xs[k := g (xs ! k)]) ! i) = sel (xs ! i)"
proof (cases "k < length xs")
  case True
  then show ?thesis
    using assms by (cases "i = k") simp_all
next
  case False
  then show ?thesis
    by (simp add: list_update_beyond)
qed

lemma set_fields_frame:
  "length (blocks (set_fields st this s)) = length (blocks st)"
  "values_b (blocks (set_fields st this s) ! i) = values_b (blocks st ! i)"
  "nextFree (blocks (set_fields st this s) ! i) = nextFree (blocks st ! i)"
  "freeList (blocks (set_fields st this s) ! i) = freeList (blocks st ! i)"
  "rawFields (blocks (set_fields st this s) ! i) = rawFields (blocks st ! i)"
  "blocksAvail (set_fields st this s) = blocksAvail st"
  "names (set_fields st this s) = names st"
  "blockSize (set_fields st this s) = blockSize st"
  "shift (set_fields st this s) = shift st"
  "mask_p (set_fields st this s) = mask_p st"
  "shiftDownFix (set_fields st this s) = shiftDownFix st"
  by (simp_all add: set_fields_def nth_update_sel)

lemma set_rawFields_frame:
  "length (blocks (set_rawFields st this s)) = length (blocks st)"
  "values_b (blocks (set_rawFields st this s) ! i) = values_b (blocks st ! i)"
  "nextFree (blocks (set_rawFields st this s) ! i) = nextFree (blocks st ! i)"
  "freeList (blocks (set_rawFields st this s) ! i) = freeList (blocks st ! i)"
  "fields_b (blocks (set_rawFields st this s) ! i) = fields_b (blocks st ! i)"
  "blocksAvail (set_rawFields st this s) = blocksAvail st"
  "names (set_rawFields st this s) = names st"
  "blockSize (set_rawFields st this s) = blockSize st"
  "shift (set_rawFields st this s) = shift st"
  "mask_p (set_rawFields st this s) = mask_p st"
  "shiftDownFix (set_rawFields st this s) = shiftDownFix st"
  by (simp_all add: set_rawFields_def nth_update_sel)

lemma alloc_slot_frame:
  "length (blocks (snd (alloc_slot st this v))) = length (blocks st)"
  "fields_b (blocks (snd (alloc_slot st this v)) ! i) = fields_b (blocks st ! i)"
  "rawFields (blocks (snd (alloc_slot st this v)) ! i) = rawFields (blocks st ! i)"
  "names (snd (alloc_slot st this v)) = names st"
  "blockSize (snd (alloc_slot st this v)) = blockSize st"
  "shift (snd (alloc_slot st this v)) = shift st"
  "mask_p (snd (alloc_slot st this v)) = mask_p st"
  "shiftDownFix (snd (alloc_slot st this v)) = shiftDownFix st"
proof -
  show "fields_b (blocks (snd (alloc_slot st this v)) ! i) = fields_b (blocks st ! i)"
  proof (cases "this < length (blocks st)")
    case True
    then show ?thesis
      by (cases "i = this") (simp_all add: alloc_slot_def Let_def split_def)
  next
    case False
    then show ?thesis
      by (simp add: alloc_slot_def Let_def split_def list_update_beyond)
  qed
  show "rawFields (blocks (snd (alloc_slot st this v)) ! i) = rawFields (blocks st ! i)"
  proof (cases "this < length (blocks st)")
    case True
    then show ?thesis
      by (cases "i = this") (simp_all add: alloc_slot_def Let_def split_def)
  next
    case False
    then show ?thesis
      by (simp add: alloc_slot_def Let_def split_def list_update_beyond)
  qed
qed (simp_all add: alloc_slot_def Let_def split_def)

text \<open>Without \<^verbatim>\<open>refs\<close> and \<^verbatim>\<open>raw\<close> the allocating branch returns a pointer.\<close>

lemma alloc_here_plain:
  "\<exists>s r. alloc_here st this v None None =
     Inr (getPointer st (int this) (case fst (alloc_slot st this v) of None \<Rightarrow> 0 | Some i \<Rightarrow> int i),
          set_rawFields (set_fields (snd (alloc_slot st this v)) this s) this r)"
proof -
  define idx where "idx = fst (alloc_slot st this v)"
  define st1 where "st1 = snd (alloc_slot st this v)"
  define F where "F = fields_b (blocks st1 ! this)"
  define R where "R = rawFields (blocks st1 ! this)"
  obtain s where s: "write_slabs F idx (replicate (length F) (Some 0)) 0 = (None, s)"
    using write_slabs_fits [of 0 "replicate (length F) (Some 0)" F idx]
    by (cases "write_slabs F idx (replicate (length F) (Some 0)) 0") auto
  obtain r where r: "write_slabs R idx (replicate (length R) (Some 0)) 0 = (None, r)"
    using write_slabs_fits [of 0 "replicate (length R) (Some 0)" R idx]
    by (cases "write_slabs R idx (replicate (length R) (Some 0)) 0") auto
  have "alloc_here st this v None None =
     Inr (getPointer st (int this) (case idx of None \<Rightarrow> 0 | Some i \<Rightarrow> int i),
          set_rawFields (set_fields st1 this s) this r)"
    unfolding alloc_here_def split_def Let_def
    unfolding idx_def [symmetric] st1_def [symmetric] F_def [symmetric] R_def [symmetric]
    by (simp add: s r)
  then show ?thesis
    unfolding idx_def st1_def by blast
qed

lemma alloc_fresh_returns:
  assumes new: "PointerSet_new fs (Some bs) rfs = Inr st" and bs: "2 \<le> bs"
  shows "\<exists>st'. alloc st 0 v None None = Some (Inr (1, st'))
           \<and> value_p st' 1 None = Inr (Some v, st')"
proof -
  obtain slabs rslabs where blocks:
    "blocks st = [\<lparr> values_b = [None], nextFree = 1, fields_b = slabs, rawFields = rslabs,
              freeList = Stack_new bs, firstNextFree = 1 \<rparr>]"
    using PointerSet_new_root(1) [OF new] by blast
  have cfg: "blockSize st = bs" "shift st = 8 \<or> shift st = 16" "mask_p st = 255 \<or> mask_p st = 65535"
    using PointerSet_new_codec [OF new] by auto
  have p: "getPointer st 0 1 = 1"
    using pointer_1 cfg by blast
  have slot: "fst (alloc_slot st 0 v) = Some 1"
    "values_b (blocks (snd (alloc_slot st 0 v)) ! 0) = [None, Some v]"
    by (simp_all add: alloc_slot_def blocks Let_def Stack_new_def jsset_at_def jsset_def)
  obtain s r where here: "alloc_here st 0 v None None =
     Inr (1, set_rawFields (set_fields (snd (alloc_slot st 0 v)) 0 s) 0 r)"
    using alloc_here_plain [of st 0 v] by (auto simp: slot p)
  define st' where "st' = set_rawFields (set_fields (snd (alloc_slot st 0 v)) 0 s) 0 r"
  have "alloc st 0 v None None = Some (alloc_here st 0 v None None)"
    using bs by (subst alloc.simps) (simp add: blocks cfg(1))
  moreover have "value_p st' 1 None = Inr (Some v, st')"
  proof -
    have cfg': "shift st' = shift st" "mask_p st' = mask_p st"
      by (simp_all add: st'_def set_rawFields_frame set_fields_frame alloc_slot_frame)
    have v: "values_b (blocks st' ! 0) = [None, Some v]" "length (blocks st') = 1"
      by (simp_all add: st'_def set_rawFields_frame set_fields_frame alloc_slot_frame slot blocks)
    have i: "getIndex st' 1 = 1" "getBlockId st' 1 = 0"
      using pointer_1 [of st'] cfg cfg' by auto
    show ?thesis
      by (simp add: value_p_def noNullPointer_def owner_def i v jsget_def Let_def)
  qed
  ultimately show ?thesis
    using here by (auto simp: st'_def)
qed

lemma PointerSet_new_succeeds:
  assumes "bs \<le> 65536" and "set rfs \<inter> set fs = {}"
  shows "\<exists>st. PointerSet_new fs (Some bs) (Some rfs) = Inr (st :: 'v pointer_set)"
proof -
  have raws: "\<exists>r. init_rawFields fs bs rs acc = Inr r" if "set rs \<inter> set fs = {}" for rs acc
    using that by (induction rs arbitrary: acc) (auto split: prod.splits)
  obtain nm slabs where f: "init_fields bs fs ([], []) = (nm, slabs)"
    by (cases "init_fields bs fs ([], [])")
  obtain nm' rslabs where r: "init_rawFields fs bs rfs (nm, []) = Inr (nm', rslabs)"
    using raws [OF assms(2), of "(nm, [])"] by auto
  show ?thesis
    using assms(1)
    by (simp add: PointerSet_new_def Let_def getWordSize_def max8_def max16_def f r)
qed

section \<open>The claims about allocation and dropping\<close>

lemma fresh_eq:
  "PointerSet_new fs (Some bs) rfs = Inr st \<Longrightarrow> fresh fs bs rfs = st"
  by (simp add: fresh_def)

text \<open>
  C8. Construction succeeds for every block size from 1 to 65536 (with raw field names
  that are not field names), and \<^verbatim>\<open>alloc\<close> on the new set returns pointer 1, whose
  value is then the one allocated, for every block size from 2 on. With block size 1
  the call never returns: the root block is full from the start (its index 0 is kept for
  the null pointer) and yet is the first block of \<^verbatim>\<open>blocksAvail\<close>, so that
  \<^verbatim>\<open>alloc\<close> calls itself on the root block again, in the same state.
\<close>

theorem alloc_on_fresh:
  assumes "1 \<le> bs" and "bs \<le> 65536" and "set rfs \<inter> set fs = {}"
  shows "\<exists>st :: 'v pointer_set.
           PointerSet_new fs (Some bs) (Some rfs) = Inr st
           \<and> (bs = 1 \<longrightarrow> alloc st 0 v refs raws = None)
           \<and> (2 \<le> bs \<longrightarrow>
                (\<exists>st'. alloc st 0 v None None = Some (Inr (1, st'))
                       \<and> value_p st' 1 None = Inr (Some v, st')))"
proof -
  obtain st :: "'v pointer_set" where st: "PointerSet_new fs (Some bs) (Some rfs) = Inr st"
    using PointerSet_new_succeeds [OF assms(2,3)] by blast
  have "bs = 1 \<longrightarrow> alloc st 0 v refs raws = None"
    using st by (auto intro: alloc_blockSize_1)
  moreover have "2 \<le> bs \<longrightarrow>
       (\<exists>st'. alloc st 0 v None None = Some (Inr (1, st'))
              \<and> value_p st' 1 None = Inr (Some v, st'))"
    using alloc_fresh_returns [OF st] by blast
  ultimately show ?thesis
    using st by blast
qed

theorem alloc_on_fresh_witness:
  "alloc (fresh [''x''] 1 (Some []) :: string pointer_set) 0 ''v'' None None = None"
proof -
  obtain st :: "string pointer_set" where
    st: "PointerSet_new [''x''] (Some 1) (Some []) = Inr st"
    and none: "alloc st 0 ''v'' None None = None"
    using alloc_on_fresh [of 1 "[]" "[''x'']" "''v''" None None] by auto
  show ?thesis
    using none fresh_eq [OF st] by simp
qed

text \<open>
  C2, as the code has it. In a new set with block size 5 and one field, block 0 is full
  after four calls of \<^verbatim>\<open>alloc\<close> (its index 0 is kept for the null pointer):
  \<^verbatim>\<open>available(0)\<close> is 0 and there is one block. The fifth call makes block 1:
  \<^verbatim>\<open>available(0)\<close> is 0 and \<^verbatim>\<open>blocksCount()\<close> is 2 after five calls, and after six.
\<close>

theorem capacity_accounting:
  "PointerSet_new [f] (Some 5) None = Inr (fresh [f] 5 None :: 'v pointer_set)
   \<and> map_option (counts \<circ> snd) (alloc_all [v1, v2, v3, v4] (fresh [f] 5 None)) = Some (Inr 0, 1)
   \<and> map_option (counts \<circ> snd) (alloc_all [v1, v2, v3, v4, v5] (fresh [f] 5 None)) = Some (Inr 0, 2)
   \<and> map_option (counts \<circ> snd) (alloc_all [v1, v2, v3, v4, v5, v6 :: 'v] (fresh [f] 5 None)) = Some (Inr 0, 2)"
proof -
  have "PointerSet_new [f] (Some 5) None = Inr (fresh [f] 5 None :: 'v pointer_set)"
    by (simp add: fresh_def PointerSet_new_def getWordSize_def max8_def max16_def Let_def)
  moreover have "map_option (counts \<circ> snd) (alloc_all [v1, v2, v3, v4] (fresh [f] 5 None)) = Some (Inr 0, 1)"
    by code_simp
  moreover have "map_option (counts \<circ> snd) (alloc_all [v1, v2, v3, v4, v5] (fresh [f] 5 None)) = Some (Inr 0, 2)"
    by code_simp
  moreover have "map_option (counts \<circ> snd) (alloc_all [v1, v2, v3, v4, v5, v6] (fresh [f] 5 None)) = Some (Inr 0, 2)"
    by code_simp
  ultimately show ?thesis
    by simp
qed

text \<open>
  C2 as stated fails: it is not the sixth call that makes block 1. After five calls
  there are two blocks already.
\<close>

theorem sixth_alloc_counterexample:
  "\<not> (map_option (counts \<circ> snd)
          (alloc_all [''0'', ''1'', ''2'', ''3'', ''4''] (fresh [''x''] 5 None)) = Some (Inr 0, 1)
      \<and> map_option (counts \<circ> snd)
          (alloc_all [''0'', ''1'', ''2'', ''3'', ''4'', ''5''] (fresh [''x''] 5 None)) = Some (Inr 0, 2))"
  by code_simp

text \<open>What \<^verbatim>\<open>drop()\<close> does in each of its three cases.\<close>

lemma drop_not_last:
  "int this \<noteq> int (length (blocks st)) - 1 \<Longrightarrow> drop_p st this = Inl (OnlyFinalBlock, st)"
  by (simp add: drop_p_def)

lemma drop_root:
  "length (blocks st) = 1 \<Longrightarrow> drop_p st 0 = Inr ((), wipeBlock st 0)"
  by (simp add: drop_p_def)

lemma drop_last:
  "0 < this \<Longrightarrow> Suc this = length (blocks st) \<Longrightarrow>
     drop_p st this =
       Inr ((), st\<lparr> blocksAvail := avail_delete this (blocksAvail st),
                      blocks := butlast (blocks st) \<rparr>)"
  by (auto simp: drop_p_def)

text \<open>
  C3. \<^verbatim>\<open>drop()\<close> checks only that the block is the last one. On the last block of
  \<^const>\<open>two_blocks\<close>, which holds one entry, it does not fail: the block is removed,
  and \<^verbatim>\<open>size()\<close> goes from 3 to 2.
\<close>

theorem drop_removes_occupied_block:
  "alloc_all [''a'', ''b''] (fresh [''x''] 2 None) = Some ([1, 256], two_blocks)
   \<and> blocksCount two_blocks = 2
   \<and> entryCount two_blocks 1 = Inr 1
   \<and> size_p two_blocks = 3
   \<and> \<not> isl (drop_p two_blocks 1)
   \<and> blocksCount (state_of (drop_p two_blocks 1)) = 1
   \<and> size_p (state_of (drop_p two_blocks 1)) = 2"
  by code_simp

text \<open>
  C4. The loop of \<^verbatim>\<open>dropEmpty\<close> does not stop at the first block that is not empty:
  it goes on to the blocks below and calls \<^verbatim>\<open>drop()\<close> on an empty one, which throws
  since that block is not the last. In \<^const>\<open>hole_store\<close> block 2 holds an entry and
  block 1 is empty, and \<^verbatim>\<open>dropEmpty()\<close> throws.
\<close>

theorem dropEmpty_throws:
  "alloc_all [''a'', ''b'', ''c'', ''d''] (fresh [''x''] 2 None) = Some ([1, 256, 257, 512], four_allocs)
   \<and> \<not> isl (free four_allocs 256)
   \<and> \<not> isl (free (state_of (free four_allocs 256)) 257)
   \<and> blocksCount hole_store = 3
   \<and> entryCount hole_store 1 = Inr 0
   \<and> entryCount hole_store 2 = Inr 1
   \<and> dropEmpty hole_store = Inl (OnlyFinalBlock, hole_store)"
  by code_simp

section \<open>free leaves the slabs alone\<close>

lemma map_update_same:
  assumes "sel y = sel (xs ! k)"
  shows "map sel (xs[k := y]) = map sel xs"
proof (cases "k < length xs")
  case True
  then show ?thesis
    using assms by (simp add: map_update list_update_same_conv)
next
  case False
  then show ?thesis
    by (simp add: list_update_beyond)
qed

lemma free_block_slabs:
  "fields_b (free_block this index b) = fields_b b"
  "rawFields (free_block this index b) = rawFields b"
  by (simp_all add: free_block_def)

lemma free_slabs:
  "map fields_b (blocks (state_of (free st p))) = map fields_b (blocks st)"
  "map rawFields (blocks (state_of (free st p))) = map rawFields (blocks st)"
  by (simp_all add: free_def state_of_def Let_def map_update_same free_block_slabs
      split: option.splits)

lemma erase_unoccupied:
  assumes "p \<noteq> nullPointer" and "owner st p = Some b"
    and "jsget (values_b (blocks st ! b)) (nat (getIndex st p)) = None"
  shows "erase st p = Inr ((), st)"
  using assms by (simp add: erase_def Let_def)

lemma erase_occupied:
  assumes p: "p \<noteq> nullPointer" and own: "owner st p = Some b"
    and occ: "jsget (values_b (blocks st ! b)) (nat (getIndex st p)) \<noteq> None"
  shows "map fields_b (blocks (state_of (erase st p))) =
      (map fields_b (blocks st))[b := zero_at (nat (getIndex st p)) (fields_b (blocks st ! b))]"
    and "map rawFields (blocks (state_of (erase st p))) =
      (map rawFields (blocks st))[b := zero_at (nat (getIndex st p)) (rawFields (blocks st ! b))]"
proof -
  have b: "b < length (blocks st)"
    using own by (auto simp: owner_def Let_def split: if_splits)
  show "map fields_b (blocks (state_of (erase st p))) =
      (map fields_b (blocks st))[b := zero_at (nat (getIndex st p)) (fields_b (blocks st ! b))]"
    using p own occ b
    by (auto simp: erase_def free_def Let_def state_of_def map_update free_block_slabs)
  show "map rawFields (blocks (state_of (erase st p))) =
      (map rawFields (blocks st))[b := zero_at (nat (getIndex st p)) (rawFields (blocks st ! b))]"
    using p own occ b
    by (auto simp: erase_def free_def Let_def state_of_def map_update free_block_slabs)
qed

text \<open>
  C7, as the code has it. \<^verbatim>\<open>free\<close> never changes a slab: the \<^verbatim>\<open>fields\<close> and
  \<^verbatim>\<open>rawFields\<close> of every block are the same after the call as before it, whatever the
  state and the pointer, and whether the call returns or throws. \<^verbatim>\<open>erase\<close> of a pointer
  whose slot holds no value returns at once and changes nothing; \<^verbatim>\<open>erase\<close> of a pointer
  whose slot holds a value sets the entry of the slot to 0 in every slab of its block and
  changes no other slab. In the list of the README, after \<^verbatim>\<open>free(A)\<close> the value of \<open>A\<close>
  is gone, \<^verbatim>\<open>ref(B, 'prev')\<close> still returns \<open>A\<close> and \<^verbatim>\<open>ref(A, 'next')\<close> still returns
  \<open>B\<close>, while the bulk get \<^verbatim>\<open>refAll(A)\<close> reports 0 for both fields. The stale
  \<^verbatim>\<open>B.prev\<close> is cleared by \<^verbatim>\<open>erase(B)\<close> or by writing the field again. The entries of
  \<open>A\<close> itself are cleared by writing them again, and not by \<^verbatim>\<open>erase(A)\<close>, which is a
  no-op after \<^verbatim>\<open>free(A)\<close>; \<^verbatim>\<open>erase(A)\<close> in the place of \<^verbatim>\<open>free(A)\<close> clears them and
  leaves \<^verbatim>\<open>B.prev\<close> as it is.
\<close>

theorem free_keeps_slabs:
  "map fields_b (blocks (state_of (free st p))) = map fields_b (blocks st)
   \<and> map rawFields (blocks (state_of (free st p))) = map rawFields (blocks st)
   \<and> (p \<noteq> nullPointer \<and> owner st p = Some b \<longrightarrow>
        (jsget (values_b (blocks st ! b)) (nat (getIndex st p)) = None \<longrightarrow>
           erase st p = Inr ((), st))
        \<and> (jsget (values_b (blocks st ! b)) (nat (getIndex st p)) \<noteq> None \<longrightarrow>
             map fields_b (blocks (state_of (erase st p))) =
               (map fields_b (blocks st))
                 [b := zero_at (nat (getIndex st p)) (fields_b (blocks st ! b))]
             \<and> map rawFields (blocks (state_of (erase st p))) =
               (map rawFields (blocks st))
                 [b := zero_at (nat (getIndex st p)) (rawFields (blocks st ! b))]))
   \<and> alloc_all [''A'', ''B''] (fresh [''next'', ''prev''] 256 None) \<noteq> None
   \<and> map_option fst (alloc_all [''A'', ''B''] (fresh [''next'', ''prev''] 256 None)) = Some [1, 2]
   \<and> ref linked_pair 1 ''next'' None = Inr (Some 2, linked_pair)
   \<and> ref linked_pair 2 ''prev'' None = Inr (Some 1, linked_pair)
   \<and> value_p linked_pair 1 None = Inr (Some ''A'', linked_pair)
   \<and> \<not> isl (free linked_pair 1)
   \<and> value_p linked_pair_freed 1 None = Inr (None, linked_pair_freed)
   \<and> ref linked_pair_freed 2 ''prev'' None = Inr (Some 1, linked_pair_freed)
   \<and> ref linked_pair_freed 1 ''next'' None = Inr (Some 2, linked_pair_freed)
   \<and> ref linked_pair_freed 1 ''prev'' None = Inr (Some 0, linked_pair_freed)
   \<and> refAll linked_pair_freed 1 None =
       Inr (Snapshot [(''next'', Some 0), (''prev'', Some 0)], linked_pair_freed)
   \<and> fst (projr (ref (state_of (erase linked_pair_freed 2)) 2 ''prev'' None)) = Some 0
   \<and> fst (projr (ref (state_of (ref linked_pair_freed 2 ''prev'' (Some 0))) 2 ''prev'' None)) = Some 0
   \<and> erase linked_pair_freed 1 = Inr ((), linked_pair_freed)
   \<and> fst (projr (ref (state_of (ref linked_pair_freed 1 ''next'' (Some 0))) 1 ''next'' None)) = Some 0
   \<and> fst (projr (ref (state_of (erase linked_pair 1)) 1 ''next'' None)) = Some 0
   \<and> fst (projr (ref (state_of (erase linked_pair 1)) 2 ''prev'' None)) = Some 1"
proof -
  have "alloc_all [''A'', ''B''] (fresh [''next'', ''prev''] 256 None :: string pointer_set) \<noteq> None"
    by code_simp
  moreover have "map_option fst (alloc_all [''A'', ''B''] (fresh [''next'', ''prev''] 256 None :: string pointer_set)) = Some [1, 2]"
    by code_simp
  moreover have "ref linked_pair 1 ''next'' None = Inr (Some 2, linked_pair)"
    by code_simp
  moreover have "ref linked_pair 2 ''prev'' None = Inr (Some 1, linked_pair)"
    by code_simp
  moreover have "value_p linked_pair 1 None = Inr (Some ''A'', linked_pair)"
    by code_simp
  moreover have "\<not> isl (free linked_pair 1)"
    by code_simp
  moreover have "value_p linked_pair_freed 1 None = Inr (None, linked_pair_freed)"
    by code_simp
  moreover have "ref linked_pair_freed 2 ''prev'' None = Inr (Some 1, linked_pair_freed)"
    by code_simp
  moreover have "ref linked_pair_freed 1 ''next'' None = Inr (Some 2, linked_pair_freed)"
    by code_simp
  moreover have "ref linked_pair_freed 1 ''prev'' None = Inr (Some 0, linked_pair_freed)"
    by code_simp
  moreover have "refAll linked_pair_freed 1 None =
       Inr (Snapshot [(''next'', Some 0), (''prev'', Some 0)], linked_pair_freed)"
    by code_simp
  moreover have "fst (projr (ref (state_of (erase linked_pair_freed 2)) 2 ''prev'' None)) = Some 0"
    by code_simp
  moreover have "fst (projr (ref (state_of (ref linked_pair_freed 2 ''prev'' (Some 0))) 2 ''prev'' None)) = Some 0"
    by code_simp
  moreover have "erase linked_pair_freed 1 = Inr ((), linked_pair_freed)"
    by code_simp
  moreover have "fst (projr (ref (state_of (ref linked_pair_freed 1 ''next'' (Some 0))) 1 ''next'' None)) = Some 0"
    by code_simp
  moreover have "fst (projr (ref (state_of (erase linked_pair 1)) 1 ''next'' None)) = Some 0"
    by code_simp
  moreover have "fst (projr (ref (state_of (erase linked_pair 1)) 2 ''prev'' None)) = Some 1"
    by code_simp
  moreover have "p \<noteq> nullPointer \<and> owner st p = Some b \<longrightarrow>
        (jsget (values_b (blocks st ! b)) (nat (getIndex st p)) = None \<longrightarrow>
           erase st p = Inr ((), st))
        \<and> (jsget (values_b (blocks st ! b)) (nat (getIndex st p)) \<noteq> None \<longrightarrow>
             map fields_b (blocks (state_of (erase st p))) =
               (map fields_b (blocks st))
                 [b := zero_at (nat (getIndex st p)) (fields_b (blocks st ! b))]
             \<and> map rawFields (blocks (state_of (erase st p))) =
               (map rawFields (blocks st))
                 [b := zero_at (nat (getIndex st p)) (rawFields (blocks st ! b))])"
    using erase_unoccupied [of p st b] erase_occupied [of p st b] by blast
  ultimately show ?thesis
    using free_slabs [of st p] by blast
qed

text \<open>
  The two cases of \<^verbatim>\<open>erase\<close> in the list of the README: \<open>A\<close> after \<^verbatim>\<open>free(A)\<close>, whose
  slot holds no value, and \<open>A\<close> before it.
\<close>

theorem free_keeps_slabs_witness:
  "(1 \<noteq> nullPointer \<and> owner linked_pair_freed 1 = Some 0
     \<and> jsget (values_b (blocks linked_pair_freed ! 0)) (nat (getIndex linked_pair_freed 1)) = None
     \<and> erase linked_pair_freed 1 = Inr ((), linked_pair_freed))
   \<and> (owner linked_pair 1 = Some 0
     \<and> jsget (values_b (blocks linked_pair ! 0)) (nat (getIndex linked_pair 1)) \<noteq> None
     \<and> map fields_b (blocks (state_of (erase linked_pair 1))) =
         (map fields_b (blocks linked_pair))
           [0 := zero_at (nat (getIndex linked_pair 1)) (fields_b (blocks linked_pair ! 0))]
     \<and> map rawFields (blocks (state_of (erase linked_pair 1))) =
         (map rawFields (blocks linked_pair))
           [0 := zero_at (nat (getIndex linked_pair 1)) (rawFields (blocks linked_pair ! 0))])"
proof -
  have n: "1 \<noteq> nullPointer"
    by (simp add: nullPointer_def)
  have f: "owner linked_pair_freed 1 = Some 0"
    "jsget (values_b (blocks linked_pair_freed ! 0)) (nat (getIndex linked_pair_freed 1)) = None"
    by (code_simp, code_simp)
  have l: "owner linked_pair 1 = Some 0"
    "jsget (values_b (blocks linked_pair ! 0)) (nat (getIndex linked_pair 1)) \<noteq> None"
    by (code_simp, code_simp)
  show ?thesis
    using free_keeps_slabs [of linked_pair_freed 1 0] free_keeps_slabs [of linked_pair 1 0] n f l
    by blast
qed

text \<open>
  C7 as stated fails for the entries of \<open>A\<close> itself: after \<^verbatim>\<open>free(A)\<close>, the call
  \<^verbatim>\<open>erase(A)\<close> returns without a change, and \<^verbatim>\<open>ref(A, 'next')\<close> still returns \<open>B\<close>.
\<close>

theorem erase_after_free_counterexample:
  "ref linked_pair_freed 1 ''next'' None = Inr (Some 2, linked_pair_freed)
   \<and> erase linked_pair_freed 1 = Inr ((), linked_pair_freed)
   \<and> ref (state_of (erase linked_pair_freed 1)) 1 ''next'' None = Inr (Some 2, linked_pair_freed)
   \<and> \<not> (fst (projr (ref (state_of (erase linked_pair_freed 1)) 1 ''next'' None)) = Some 0)"
proof -
  have "ref linked_pair_freed 1 ''next'' None = Inr (Some 2, linked_pair_freed)"
    by code_simp
  moreover have "erase linked_pair_freed 1 = Inr ((), linked_pair_freed)"
    by code_simp
  moreover have "ref (state_of (erase linked_pair_freed 1)) 1 ''next'' None = Inr (Some 2, linked_pair_freed)"
    by code_simp
  moreover have "\<not> (fst (projr (ref (state_of (erase linked_pair_freed 1)) 1 ''next'' None)) = Some 0)"
    by code_simp
  ultimately show ?thesis
    by simp
qed

section \<open>alloc is not atomic\<close>

lemma sum_list_map_update:
  fixes f :: "'a \<Rightarrow> int"
  shows "k < length xs \<Longrightarrow>
    sum_list (map f (xs[k := y])) = sum_list (map f xs) - f (xs ! k) + f y"
  by (induction xs arbitrary: k) (auto split: nat.splits)

lemma jsget_jsset: "jsget (jsset xs i v) i = v"
  by (auto simp: jsget_def jsset_def nth_append)

lemma pop_fits:
  assumes "stack_fits s" and "0 < length_s s"
  shows "\<exists>i. fst (pop s) = Some i"
  using assms
  by (cases "data s") (auto simp: pop_def stack_fits_def typed_get_def Let_def)

lemma pop_length: "length_s (snd (pop s)) = length_s s - 1"
  by (simp add: pop_def Let_def)

text \<open>Taking a slot adds one entry to the block and stores the value.\<close>

lemma alloc_slot_counts:
  assumes th: "this < length (blocks st)" and fits: "stack_fits (freeList (blocks st ! this))"
  shows "size_p (snd (alloc_slot st this v)) = size_p st + 1"
    and "\<exists>i. jsget (values_b (blocks (snd (alloc_slot st this v)) ! this)) i = Some v"
    and "entryCount_b (blocks (snd (alloc_slot st this v)) ! this) = entryCount_b (blocks st ! this) + 1"
proof -
  let ?b = "blocks st ! this"
  show c: "entryCount_b (blocks (snd (alloc_slot st this v)) ! this) = entryCount_b ?b + 1"
    using th
    by (auto simp: alloc_slot_def Let_def split_def entryCount_b_def pop_length)
  show "size_p (snd (alloc_slot st this v)) = size_p st + 1"
  proof -
    have "blocks (snd (alloc_slot st this v)) = (blocks st)[this := blocks (snd (alloc_slot st this v)) ! this]"
      using th by (simp add: alloc_slot_def Let_def split_def)
    then have "size_p (snd (alloc_slot st this v)) =
        sum_list (map entryCount_b ((blocks st)[this := blocks (snd (alloc_slot st this v)) ! this]))"
      by (simp add: size_p_def)
    also have "\<dots> = size_p st - entryCount_b ?b + entryCount_b (blocks (snd (alloc_slot st this v)) ! this)"
      using th by (simp add: sum_list_map_update size_p_def)
    finally show ?thesis
      using c by simp
  qed
  show "\<exists>i. jsget (values_b (blocks (snd (alloc_slot st this v)) ! this)) i = Some v"
  proof (cases "0 < length_s (freeList ?b)")
    case True
    then obtain i where "fst (pop (freeList ?b)) = Some i"
      using pop_fits fits by blast
    then have "jsget (values_b (blocks (snd (alloc_slot st this v)) ! this)) i = Some v"
      using th True by (simp add: alloc_slot_def Let_def split_def jsset_at_def jsget_jsset)
    then show ?thesis ..
  next
    case False
    then have "jsget (values_b (blocks (snd (alloc_slot st this v)) ! this)) (nextFree ?b) = Some v"
      using th by (simp add: alloc_slot_def Let_def split_def jsset_at_def jsget_jsset)
    then show ?thesis ..
  qed
qed


lemma write_slabs_error:
  "fst (write_slabs slabs index ws i) = Some e \<Longrightarrow> e = JsTypeError"
  by (induction ws arbitrary: slabs i) (auto split: if_splits)

lemma alloc_here_field_error:
  assumes "alloc_here st this v refs raws = Inl (e, st')" and "field_error e"
  shows "st' = snd (alloc_slot st this v)
         \<or> (\<exists>slabs. st' = set_fields (snd (alloc_slot st this v)) this slabs)"
proof -
  have no: "\<not> field_error JsTypeError"
    by (simp add: field_error_def)
  show ?thesis
    using assms no
    unfolding alloc_here_def split_def Let_def
    by (auto split: sum.splits option.splits prod.splits dest!: write_slabs_error)
qed


lemma set_fields_counts:
  "entryCount_b (blocks (set_fields st this s) ! i) = entryCount_b (blocks st ! i)"
  "size_p (set_fields st this s) = size_p st"
proof -
  show "entryCount_b (blocks (set_fields st this s) ! i) = entryCount_b (blocks st ! i)"
    by (simp add: entryCount_b_def set_fields_frame)
  have "map entryCount_b (blocks (set_fields st this s)) = map entryCount_b (blocks st)"
    by (simp add: set_fields_def map_update_same entryCount_b_def)
  then show "size_p (set_fields st this s) = size_p st"
    by (simp add: size_p_def)
qed

lemma alloc_here_takes_slot:
  assumes here: "alloc_here st this v refs raws = Inl (e, st')" and fe: "field_error e"
    and th: "this < length (blocks st)" and sk: "stacks_ok st"
  shows "slot_taken st st' v"
proof -
  let ?s1 = "snd (alloc_slot st this v)"
  have fits: "stack_fits (freeList (blocks st ! this))"
    using sk th by (simp add: stacks_ok_def list_all_length)
  obtain i where i: "jsget (values_b (blocks ?s1 ! this)) i = Some v"
    using alloc_slot_counts(2) [OF th fits] by blast
  have len: "length (blocks ?s1) = length (blocks st)"
    by (rule alloc_slot_frame)
  have cnt: "entryCount_b (blocks ?s1 ! this) = entryCount_before st this + 1"
    using alloc_slot_counts(3) [OF th fits] th by (simp add: entryCount_before_def)
  have sz: "size_p ?s1 = size_p st + 1"
    by (rule alloc_slot_counts(1) [OF th fits])
  from alloc_here_field_error [OF here fe] show ?thesis
  proof
    assume "st' = ?s1"
    then show ?thesis
      unfolding slot_taken_def using sz len th i cnt by auto
  next
    assume "\<exists>slabs. st' = set_fields ?s1 this slabs"
    then obtain slabs where st': "st' = set_fields ?s1 this slabs" ..
    have "this < length (blocks st')"
      using th len by (simp add: st' set_fields_frame)
    moreover have "jsget (values_b (blocks st' ! this)) i = Some v"
      using i by (simp add: st' set_fields_frame)
    moreover have "entryCount_b (blocks st' ! this) = entryCount_before st this + 1"
      using cnt by (simp add: st' set_fields_counts)
    moreover have "size_p st' = size_p st + 1"
      using sz by (simp add: st' set_fields_counts)
    ultimately show ?thesis
      unfolding slot_taken_def by blast
  qed
qed

lemma PointerSetBlock_new_props:
  assumes "PointerSetBlock_new st = Inr st2"
  shows "\<exists>nb. blocks st2 = blocks st @ [nb] \<and> entryCount_b nb = 0 \<and> stack_fits (freeList nb)"
    and "blocksAvail st2 = avail_add (length (blocks st)) (blocksAvail st)"
  using assms
  by (auto simp: PointerSetBlock_new_def Let_def entryCount_b_def Stack_new_def stack_fits_def
      unsafeUint8Array_def unsafeUint16Array_def split: if_splits)

lemma new_block_ok:
  assumes new: "PointerSetBlock_new st = Inr st2" and av: "avail_ok st" and sk: "stacks_ok st"
  shows "length (blocks st) < length (blocks st2)" and "avail_ok st2" and "stacks_ok st2"
    and "size_p st2 = size_p st" and "entryCount_before st2 b = entryCount_before st b"
proof -
  obtain nb where nb: "blocks st2 = blocks st @ [nb]" "entryCount_b nb = 0" "stack_fits (freeList nb)"
    using PointerSetBlock_new_props(1) [OF new] by blast
  note a = PointerSetBlock_new_props(2) [OF new]
  show "length (blocks st) < length (blocks st2)"
    by (simp add: nb)
  show "avail_ok st2"
    using av by (auto simp: avail_ok_def a nb avail_add_def list_all_iff)
  show "stacks_ok st2"
    using sk by (simp add: stacks_ok_def nb)
  show "size_p st2 = size_p st"
    by (simp add: size_p_def nb)
  show "entryCount_before st2 b = entryCount_before st b"
    by (auto simp: entryCount_before_def nb nth_append)
qed

lemma slot_taken_new_block:
  assumes new: "PointerSetBlock_new st = Inr st2" and av: "avail_ok st" and sk: "stacks_ok st"
    and t: "slot_taken st2 st' v"
  shows "slot_taken st st' v"
  using t new_block_ok(4,5) [OF new av sk]
  by (simp add: slot_taken_def)


lemma alloc_error_takes_slot:
  assumes res: "alloc st this v refs raws = Some y"
  shows "this < length (blocks st) \<longrightarrow> avail_ok st \<longrightarrow> stacks_ok st \<longrightarrow>
         (\<forall>e st'. y = Inl (e, st') \<longrightarrow> field_error e \<longrightarrow> slot_taken st st' v)"
proof (rule alloc.raw_induct [where P = "\<lambda>s t w r rw y.
         t < length (blocks s) \<longrightarrow> avail_ok s \<longrightarrow> stacks_ok s \<longrightarrow>
         (\<forall>e s'. y = Inl (e, s') \<longrightarrow> field_error e \<longrightarrow> slot_taken s s' w)", OF _ res])
  fix alloc' :: "'a pointer_set \<Rightarrow> nat \<Rightarrow> 'a \<Rightarrow> (string \<times> int) list option
      \<Rightarrow> (string \<times> int) list option \<Rightarrow> ((error \<times> 'a pointer_set) + (int \<times> 'a pointer_set)) option"
  fix s t w r rw z
  assume ih: "\<And>s t w r rw y. alloc' s t w r rw = Some y \<Longrightarrow>
         t < length (blocks s) \<longrightarrow> avail_ok s \<longrightarrow> stacks_ok s \<longrightarrow>
         (\<forall>e s'. y = Inl (e, s') \<longrightarrow> field_error e \<longrightarrow> slot_taken s s' w)"
    and body: "(if nextFree (blocks s ! t) < blockSize s \<or> 0 < length_s (freeList (blocks s ! t))
         then Some (alloc_here s t w r rw)
         else case blocksAvail s of
            [] \<Rightarrow> (case PointerSetBlock_new s of Inl e \<Rightarrow> Some (Inl (e, s))
                     | Inr st' \<Rightarrow> alloc' st' (length (blocks s)) w r rw)
          | b # x \<Rightarrow> alloc' s b w r rw) = Some z"
  show "t < length (blocks s) \<longrightarrow> avail_ok s \<longrightarrow> stacks_ok s \<longrightarrow>
         (\<forall>e s'. z = Inl (e, s') \<longrightarrow> field_error e \<longrightarrow> slot_taken s s' w)"
  proof (intro impI allI)
    fix e s'
    assume t: "t < length (blocks s)" and av: "avail_ok s" and sk: "stacks_ok s"
      and z: "z = Inl (e, s')" and fe: "field_error e"
    show "slot_taken s s' w"
    proof (cases "nextFree (blocks s ! t) < blockSize s \<or> 0 < length_s (freeList (blocks s ! t))")
      case True
      with body z have "alloc_here s t w r rw = Inl (e, s')"
        by simp
      then show ?thesis
        using fe t sk by (rule alloc_here_takes_slot)
    next
      case False
      show ?thesis
      proof (cases "blocksAvail s")
        case (Cons b x)
        with body False have "alloc' s b w r rw = Some z"
          by simp
        moreover have "b < length (blocks s)"
          using av Cons by (simp add: avail_ok_def)
        ultimately show ?thesis
          using ih av sk z fe by blast
      next
        case Nil
        show ?thesis
        proof (cases "PointerSetBlock_new s")
          case (Inl err)
          with body False Nil have "z = Inl (err, s)"
            by simp
          moreover have "err = OutOfMemory"
            using Inl by (simp add: PointerSetBlock_new_def Let_def split: if_splits)
          ultimately show ?thesis
            using z fe by (simp add: field_error_def)
        next
          case (Inr s2)
          with body False Nil have "alloc' s2 (length (blocks s)) w r rw = Some z"
            by simp
          then have "slot_taken s2 s' w"
            using ih new_block_ok(1,2,3) [OF Inr av sk] z fe by blast
          then show ?thesis
            using Inr av sk by (rule slot_taken_new_block [rotated 3])
        qed
      qed
    qed
  qed
qed

text \<open>
  C10. \<^verbatim>\<open>alloc\<close> is not atomic. When it throws one of the four errors about a key
  of \<^verbatim>\<open>refs\<close> or \<^verbatim>\<open>raw\<close>, in the block it was called on or in the block it went on
  to, the slot is taken all the same: in the state at the throw \<^verbatim>\<open>size()\<close> is one
  more than before, the value is stored in a block, and the entry count of that block
  (\<^verbatim>\<open>nextFree\<close> less the length of the free list) is one more than before. The result
  is the error: no pointer is returned.
\<close>

theorem alloc_not_atomic:
  assumes res: "alloc st this v refs raws = Some (Inl (e, st'))"
    and fe: "field_error e"
    and th: "this < length (blocks st)"
    and av: "avail_ok st"
    and sk: "stacks_ok st"
  shows "size_p st' = size_p st + 1
     \<and> (\<exists>b i. b < length (blocks st')
              \<and> jsget (values_b (blocks st' ! b)) i = Some v
              \<and> entryCount_b (blocks st' ! b) = entryCount_before st b + 1)"
  using alloc_error_takes_slot [OF res] fe th av sk
  by (simp add: slot_taken_def)

theorem alloc_not_atomic_witness:
  "alloc basic_store 0 ''badptr'' (Some [(''p'', 1)]) (Some [])
     = Some (Inl (RawAsPointer ''p'', basic_store_thrown))
   \<and> field_error (RawAsPointer ''p'')
   \<and> avail_ok basic_store \<and> stacks_ok basic_store
   \<and> size_p basic_store = 2
   \<and> size_p basic_store_thrown = 3
   \<and> jsget (values_b (blocks basic_store_thrown ! 0)) 2 = Some ''badptr''"
proof -
  have r: "alloc basic_store 0 ''badptr'' (Some [(''p'', 1)]) (Some [])
     = Some (Inl (RawAsPointer ''p'', basic_store_thrown))"
    by code_simp
  have fe: "field_error (RawAsPointer ''p'')"
    by (simp add: field_error_def)
  have th: "0 < length (blocks basic_store)"
    by code_simp
  have av: "avail_ok basic_store"
    by code_simp
  have sk: "stacks_ok basic_store"
    by code_simp
  have sz: "size_p basic_store = 2"
    by code_simp
  have v: "jsget (values_b (blocks basic_store_thrown ! 0)) 2 = Some ''badptr''"
    by code_simp
  have "size_p basic_store_thrown = size_p basic_store + 1"
    using alloc_not_atomic [OF r fe th av sk] by simp
  then show ?thesis
    using r fe av sk sz v by simp
qed

section \<open>Bulk writes are single writes, in an occupied slot\<close>

lemma owner_in_range: "owner st p = Some b \<Longrightarrow> b < length (blocks st)"
  by (auto simp: owner_def Let_def split: if_splits)

lemma set_fields_twice:
  "b < length (blocks st) \<Longrightarrow> set_fields (set_fields st b s1) b s2 = set_fields st b s2"
  by (simp add: set_fields_def)

lemma set_fields_same:
  "b < length (blocks st) \<Longrightarrow> set_fields st b (fields_b (blocks st ! b)) = st"
  by (simp add: set_fields_def)

lemma set_fields_fields:
  "b < length (blocks st) \<Longrightarrow> fields_b (blocks (set_fields st b s) ! b) = s"
  by (simp add: set_fields_def)

lemma set_fields_codec:
  "getIndex (set_fields st b s) p = getIndex st p"
  "getBlockId (set_fields st b s) p = getBlockId st p"
  "owner (set_fields st b s) p = owner st p"
  by (simp_all add: getIndex_def getBlockId_def owner_def Let_def set_fields_frame)

lemma set_rawFields_twice:
  "b < length (blocks st) \<Longrightarrow> set_rawFields (set_rawFields st b s1) b s2 = set_rawFields st b s2"
  by (simp add: set_rawFields_def)

lemma set_rawFields_same:
  "b < length (blocks st) \<Longrightarrow> set_rawFields st b (rawFields (blocks st ! b)) = st"
  by (simp add: set_rawFields_def)

lemma set_rawFields_rawFields:
  "b < length (blocks st) \<Longrightarrow> rawFields (blocks (set_rawFields st b s) ! b) = s"
  by (simp add: set_rawFields_def)

lemma set_rawFields_codec:
  "getIndex (set_rawFields st b s) p = getIndex st p"
  "getBlockId (set_rawFields st b s) p = getBlockId st p"
  "owner (set_rawFields st b s) p = owner st p"
  by (simp_all add: getIndex_def getBlockId_def owner_def Let_def set_rawFields_frame)

lemma names_ok_lookup:
  assumes "names_ok st b" and "map_of (names st) k = Some fid"
  shows "0 \<le> fid \<Longrightarrow> nat fid < length (fields_b (blocks st ! b))"
    and "fid < 0 \<Longrightarrow> nat (js_not fid) < length (rawFields (blocks st ! b))"
  using assms map_of_SomeD [OF assms(2)]
  by (auto simp: names_ok_def list_all_iff)

text \<open>One write of \<^verbatim>\<open>ref\<close>, in a state whose field slabs of block \<open>b\<close> are \<open>slabs\<close>.\<close>

lemma ref_write_step:
  assumes p: "p \<noteq> 0" and own: "owner st p = Some b" and ok: "names_ok st b"
    and len: "length slabs = length (fields_b (blocks st ! b))"
  shows "ref (set_fields st b slabs) p k (Some t) =
     (case map_of (names st) k of
        None \<Rightarrow> Inl (UnknownPointerField k, set_fields st b slabs)
      | Some fid \<Rightarrow>
          if fid < 0 then Inl (RawAsPointer k, set_fields st b slabs)
          else Inr (Some t,
                 set_fields st b
                   (slabs[nat fid := typed_set (slabs ! nat fid) (nat (getIndex st p)) (word_of_int t)])))"
proof -
  note b = owner_in_range [OF own]
  show ?thesis
  proof (cases "map_of (names st) k")
    case None
    then show ?thesis
      using p own b
      by (simp add: ref_def noNullPointer_def Let_def set_fields_codec set_fields_frame)
  next
    case (Some fid)
    show ?thesis
    proof (cases "fid < 0")
      case True
      then show ?thesis
        using p Some
        by (simp add: ref_def noNullPointer_def Let_def set_fields_frame)
    next
      case False
      then have "nat fid < length slabs"
        using names_ok_lookup(1) [OF ok Some] len by simp
      then show ?thesis
        using p own b Some False
        by (simp add: ref_def noNullPointer_def Let_def set_fields_codec set_fields_frame
            set_fields_fields set_fields_twice typed_get_def)
    qed
  qed
qed

lemma refAll_set_is_ref_each:
  assumes p: "p \<noteq> 0" and own: "owner st p = Some b" and ok: "names_ok st b"
  shows "length slabs = length (fields_b (blocks st ! b)) \<Longrightarrow>
     ref_each (set_fields st b slabs) p kvs =
       (case refAll_set (names st) (nat (getIndex st p)) kvs slabs of
          (Some e, slabs') \<Rightarrow> Inl (e, set_fields st b slabs')
        | (None, slabs') \<Rightarrow> Inr ((), set_fields st b slabs'))"
proof (induction kvs arbitrary: slabs)
  case Nil
  then show ?case by simp
next
  case (Cons kv kvs)
  obtain k t where kv: "kv = (k, t)"
    by (cases kv)
  note step = ref_write_step [OF p own ok Cons.prems, of k t]
  show ?case
  proof (cases "map_of (names st) k")
    case None
    then show ?thesis
      using step by (simp add: kv)
  next
    case (Some fid)
    show ?thesis
    proof (cases "fid < 0")
      case True
      then show ?thesis
        using step Some by (simp add: kv)
    next
      case False
      have in_range: "nat fid < length slabs"
        using names_ok_lookup(1) [OF ok Some] False Cons.prems by simp
      let ?slabs = "slabs[nat fid := typed_set (slabs ! nat fid) (nat (getIndex st p)) (word_of_int t)]"
      have "length ?slabs = length (fields_b (blocks st ! b))"
        using Cons.prems by simp
      from Cons.IH [OF this] show ?thesis
        using step Some False in_range by (simp add: kv typed_get_def)
    qed
  qed
qed


lemma raw_write_step:
  assumes p: "p \<noteq> 0" and own: "owner st p = Some b" and ok: "names_ok st b"
    and len: "length slabs = length (rawFields (blocks st ! b))"
  shows "raw (set_rawFields st b slabs) p k (Some t) =
     (case map_of (names st) k of
        None \<Rightarrow> Inl (UnknownRawField k, set_rawFields st b slabs)
      | Some fid \<Rightarrow>
          if fid \<ge> 0 then Inl (PointerAsRaw k, set_rawFields st b slabs)
          else Inr (Some t,
                 set_rawFields st b
                   (slabs[nat (js_not fid) :=
                      typed_set (slabs ! nat (js_not fid)) (nat (getIndex st p)) (word_of_int t)])))"
proof -
  note b = owner_in_range [OF own]
  show ?thesis
  proof (cases "map_of (names st) k")
    case None
    then show ?thesis
      using p own b
      by (simp add: raw_def noNullPointer_def Let_def set_rawFields_codec set_rawFields_frame)
  next
    case (Some fid)
    show ?thesis
    proof (cases "fid \<ge> 0")
      case True
      then show ?thesis
        using p Some
        by (simp add: raw_def noNullPointer_def Let_def set_rawFields_frame)
    next
      case False
      then have "nat (js_not fid) < length slabs"
        using names_ok_lookup(2) [OF ok Some] len by simp
      then show ?thesis
        using p own b Some False
        by (simp add: raw_def noNullPointer_def Let_def set_rawFields_codec set_rawFields_frame
            set_rawFields_rawFields set_rawFields_twice typed_get_def)
    qed
  qed
qed

lemma rawAll_set_is_raw_each:
  assumes p: "p \<noteq> 0" and own: "owner st p = Some b" and ok: "names_ok st b"
  shows "length slabs = length (rawFields (blocks st ! b)) \<Longrightarrow>
     raw_each (set_rawFields st b slabs) p kvs =
       (case rawAll_set (names st) (nat (getIndex st p)) kvs slabs of
          (Some e, slabs') \<Rightarrow> Inl (e, set_rawFields st b slabs')
        | (None, slabs') \<Rightarrow> Inr ((), set_rawFields st b slabs'))"
proof (induction kvs arbitrary: slabs)
  case Nil
  then show ?case by simp
next
  case (Cons kv kvs)
  obtain k t where kv: "kv = (k, t)"
    by (cases kv)
  note step = raw_write_step [OF p own ok Cons.prems, of k t]
  show ?case
  proof (cases "map_of (names st) k")
    case None
    then show ?thesis
      using step by (simp add: kv)
  next
    case (Some fid)
    show ?thesis
    proof (cases "fid \<ge> 0")
      case True
      then show ?thesis
        using step Some by (simp add: kv)
    next
      case False
      have in_range: "nat (js_not fid) < length slabs"
        using names_ok_lookup(2) [OF ok Some] False Cons.prems by simp
      let ?slabs = "slabs[nat (js_not fid) :=
          typed_set (slabs ! nat (js_not fid)) (nat (getIndex st p)) (word_of_int t)]"
      have "length ?slabs = length (rawFields (blocks st ! b))"
        using Cons.prems by simp
      from Cons.IH [OF this] show ?thesis
        using step Some False in_range by (simp add: kv typed_get_def)
    qed
  qed
qed

lemma refAll_occupied:
  assumes p: "p \<noteq> 0" and own: "owner st p = Some b" and ok: "names_ok st b"
    and occ: "occupied st b p"
  shows "refAll st p (Some refs) = given refs (ref_each st p refs)"
proof -
  note b = owner_in_range [OF own]
  have "ref_each st p refs =
       (case refAll_set (names st) (nat (getIndex st p)) refs (fields_b (blocks st ! b)) of
          (Some e, slabs') \<Rightarrow> Inl (e, set_fields st b slabs')
        | (None, slabs') \<Rightarrow> Inr ((), set_fields st b slabs'))"
    using refAll_set_is_ref_each [OF p own ok, of "fields_b (blocks st ! b)" refs]
    by (simp add: set_fields_same [OF b])
  then show ?thesis
    using p own occ
    by (simp add: refAll_def noNullPointer_def Let_def occupied_def given_def
        split: prod.splits option.splits)
qed

lemma rawAll_occupied:
  assumes p: "p \<noteq> 0" and own: "owner st p = Some b" and ok: "names_ok st b"
    and occ: "occupied st b p"
  shows "rawAll st p (Some raws) = given raws (raw_each st p raws)"
proof -
  note b = owner_in_range [OF own]
  have "raw_each st p raws =
       (case rawAll_set (names st) (nat (getIndex st p)) raws (rawFields (blocks st ! b)) of
          (Some e, slabs') \<Rightarrow> Inl (e, set_rawFields st b slabs')
        | (None, slabs') \<Rightarrow> Inr ((), set_rawFields st b slabs'))"
    using rawAll_set_is_raw_each [OF p own ok, of "rawFields (blocks st ! b)" raws]
    by (simp add: set_rawFields_same [OF b])
  then show ?thesis
    using p own occ
    by (simp add: rawAll_def noNullPointer_def Let_def occupied_def given_def
        split: prod.splits option.splits)
qed

lemma bulk_unoccupied:
  assumes p: "p \<noteq> 0" and own: "owner st p = Some b" and occ: "\<not> occupied st b p"
  shows "refAll st p (Some refs) = Inr (Given refs, st)"
    and "rawAll st p (Some raws) = Inr (Given raws, st)"
  using p own occ
  by (simp_all add: refAll_def rawAll_def noNullPointer_def Let_def occupied_def)


lemma uint32_of_int: "uint (word_of_int t :: 32 word) = t mod 4294967296"
  by (simp add: uint_word_of_int)

text \<open>What a bulk set has written is what the single and the bulk get return.\<close>

lemma length_typed_set: "length (typed_set xs i v) = length xs"
  by (simp add: typed_set_def)

lemma typed_set_read: "i < length xs \<Longrightarrow> typed_set xs i v ! i = v"
  by (simp add: typed_set_def)

lemma names_inj_lookup:
  assumes inj: "names_inj st"
    and k: "map_of (names st) k = Some fid" and k': "map_of (names st) k' = Some fid'"
    and same: "slab_of fid = slab_of fid'"
  shows "k = k'"
proof -
  have i: "inj_on (\<lambda>(f, fid). slab_of fid) (set (names st))"
    using inj by (simp add: names_inj_def distinct_map)
  have m: "(k, fid) \<in> set (names st)" "(k', fid') \<in> set (names st)"
    using k k' by (auto dest: map_of_SomeD)
  have e: "(\<lambda>(f, fid). slab_of fid) (k, fid) = (\<lambda>(f, fid). slab_of fid) (k', fid')"
    using same by simp
  have "(k, fid) = (k', fid')"
    by (rule inj_onD [OF i e m])
  then show ?thesis
    by simp
qed

lemma refAll_set_lengths:
  "refAll_set nm i kvs slabs = (e, slabs') \<Longrightarrow> map length slabs' = map length slabs"
proof (induction kvs arbitrary: slabs)
  case Nil
  then show ?case by simp
next
  case (Cons kv kvs)
  obtain k t where kv: "kv = (k, t)"
    by (cases kv)
  show ?case
  proof (cases "map_of nm k")
    case None
    then show ?thesis
      using Cons.prems by (simp add: kv)
  next
    case (Some fid)
    show ?thesis
    proof (cases "fid < 0 \<or> \<not> nat fid < length slabs")
      case True
      then show ?thesis
        using Cons.prems Some by (auto simp: kv typed_get_def split: if_splits)
    next
      case False
      let ?s = "slabs[nat fid := typed_set (slabs ! nat fid) i (word_of_int t)]"
      have "refAll_set nm i kvs ?s = (e, slabs')"
        using Cons.prems Some False by (simp add: kv typed_get_def)
      from Cons.IH [OF this] show ?thesis
        using False by (simp add: map_update length_typed_set list_update_same_conv)
    qed
  qed
qed

lemma refAll_set_other:
  assumes "refAll_set nm i kvs slabs = (e, slabs')"
    and "\<And>k fid. k \<in> fst ` set kvs \<Longrightarrow> map_of nm k = Some fid \<Longrightarrow> 0 \<le> fid \<Longrightarrow> nat fid \<noteq> j"
  shows "slabs' ! j = slabs ! j"
  using assms
proof (induction kvs arbitrary: slabs)
  case Nil
  then show ?case by simp
next
  case (Cons kv kvs)
  obtain k t where kv: "kv = (k, t)"
    by (cases kv)
  show ?case
  proof (cases "map_of nm k")
    case None
    then show ?thesis
      using Cons.prems(1) by (simp add: kv)
  next
    case (Some fid)
    show ?thesis
    proof (cases "fid < 0 \<or> \<not> nat fid < length slabs")
      case True
      then show ?thesis
        using Cons.prems(1) Some by (auto simp: kv typed_get_def split: if_splits)
    next
      case False
      let ?s = "slabs[nat fid := typed_set (slabs ! nat fid) i (word_of_int t)]"
      have run: "refAll_set nm i kvs ?s = (e, slabs')"
        using Cons.prems(1) Some False by (simp add: kv typed_get_def)
      have "nat fid \<noteq> j"
        using Cons.prems(2) [of k fid] Some False by (simp add: kv)
      moreover have "slabs' ! j = ?s ! j"
      proof (rule Cons.IH [OF run])
        fix k' fid'
        assume "k' \<in> fst ` set kvs" "map_of nm k' = Some fid'" "0 \<le> fid'"
        then show "nat fid' \<noteq> j"
          using Cons.prems(2) [of k' fid'] by simp
      qed
      ultimately show ?thesis
        by simp
    qed
  qed
qed

lemma refAll_set_written:
  assumes "refAll_set nm i kvs slabs = (None, slabs')"
    and "distinct (map fst kvs)"
    and inj: "\<forall>k fid k' fid'. map_of nm k = Some fid \<longrightarrow> map_of nm k' = Some fid'
        \<longrightarrow> slab_of fid = slab_of fid' \<longrightarrow> k = k'"
    and "(k, t) \<in> set kvs"
    and "list_all (\<lambda>slab. i < length slab) slabs"
  shows "\<exists>fid. map_of nm k = Some fid \<and> 0 \<le> fid \<and> nat fid < length slabs'
      \<and> typed_get (slabs' ! nat fid) i = Some (word_of_int t)"
  using assms(1,2,4,5)
proof (induction kvs arbitrary: slabs)
  case Nil
  then show ?case by simp
next
  case (Cons kv kvs)
  obtain k0 t0 where kv: "kv = (k0, t0)"
    by (cases kv)
  from Cons.prems(1) obtain f0 where f0: "map_of nm k0 = Some f0" "0 \<le> f0" "nat f0 < length slabs"
    by (auto simp: kv typed_get_def split: option.splits if_splits)
  let ?s = "slabs[nat f0 := typed_set (slabs ! nat f0) i (word_of_int t0)]"
  have run: "refAll_set nm i kvs ?s = (None, slabs')"
    using Cons.prems(1) f0 by (simp add: kv typed_get_def)
  have fits: "list_all (\<lambda>slab. i < length slab) ?s"
    using Cons.prems(4) f0(3)
    by (auto simp: list_all_iff length_typed_set dest!: set_update_subset_insert [THEN subsetD])
  have lens: "map length slabs' = map length ?s"
    by (rule refAll_set_lengths [OF run])
  show ?case
  proof (cases "(k, t) = (k0, t0)")
    case False
    then have "(k, t) \<in> set kvs"
      using Cons.prems(3) by (auto simp: kv)
    from Cons.IH [OF run _ this fits] show ?thesis
      using Cons.prems(2) by simp
  next
    case True
    have "slabs' ! nat f0 = ?s ! nat f0"
    proof (rule refAll_set_other [OF run])
      fix k' fid'
      assume k': "k' \<in> fst ` set kvs" "map_of nm k' = Some fid'" "0 \<le> fid'"
      have "k' \<noteq> k0"
        using k'(1) Cons.prems(2) by (auto simp: kv)
      then have "slab_of fid' \<noteq> slab_of f0"
        using inj k'(2) f0(1) by blast
      then show "nat fid' \<noteq> nat f0"
        using k'(3) f0(2) by (auto simp: slab_of_def)
    qed
    moreover have "i < length (slabs ! nat f0)"
      using Cons.prems(4) f0(3) by (simp add: list_all_length)
    moreover have "length slabs' = length slabs"
      using lens [THEN arg_cong, of length] by simp
    ultimately show ?thesis
      using True f0 by (simp add: typed_get_def length_typed_set typed_set_read)
  qed
qed

lemma ref_read:
  assumes "p \<noteq> 0" and "owner st p = Some b" and "map_of (names st) k = Some fid"
    and "0 \<le> fid" and "nat fid < length (fields_b (blocks st ! b))"
  shows "ref st p k None =
      Inr (map_option uint (typed_get (fields_b (blocks st ! b) ! nat fid) (nat (getIndex st p))), st)"
  using assms by (simp add: ref_def noNullPointer_def Let_def typed_get_def)

lemma refAll_get_snapshot:
  assumes "list_all (\<lambda>(f, fid). 0 \<le> fid \<longrightarrow> nat fid < length slabs) nm"
  shows "refAll_get slabs i nm =
      Inr (map (\<lambda>(f, fid). (f, map_option uint (typed_get (slabs ! nat fid) i)))
             (filter (\<lambda>(f, fid). 0 \<le> fid) nm))"
  using assms by (induction nm) (auto simp: typed_get_def)

lemma refAll_read_back:
  assumes p: "p \<noteq> 0" and own: "owner st p = Some b" and ok: "names_ok st b"
    and inj: "names_inj st" and occ: "occupied st b p" and ix: "index_ok st b p"
    and d: "distinct (map fst refs)"
    and w: "refAll st p (Some refs) = Inr (r, st')"
  shows "r = Given refs
    \<and> (\<forall>(k, t)\<in>set refs. ref st' p k None = Inr (Some (t mod 4294967296), st'))
    \<and> (\<exists>snap. refAll st' p None = Inr (Snapshot snap, st') \<and> distinct (map fst snap)
          \<and> (\<forall>(k, t)\<in>set refs. (k, Some (t mod 4294967296)) \<in> set snap)
          \<and> (\<forall>(k, v)\<in>set snap. ref st' p k None = Inr (v, st')))"
proof -
  note b = owner_in_range [OF own]
  define F where "F = fields_b (blocks st ! b)"
  define i where "i = nat (getIndex st p)"
  from w p own occ obtain slabs' where run: "refAll_set (names st) i refs F = (None, slabs')"
    and st': "st' = set_fields st b slabs'" and r: "r = Given refs"
    by (auto simp: refAll_def noNullPointer_def Let_def occupied_def F_def i_def
        split: prod.splits option.splits)
  have len: "length slabs' = length F"
    using refAll_set_lengths [OF run, THEN arg_cong, of length] by simp
  have fits: "list_all (\<lambda>slab. i < length slab) F"
    using ix by (simp add: index_ok_def F_def i_def)
  have own': "owner st' p = Some b" and i': "nat (getIndex st' p) = i"
    and F': "fields_b (blocks st' ! b) = slabs'" and nm': "names st' = names st"
    using own b by (simp_all add: st' set_fields_codec set_fields_fields set_fields_frame i_def)
  have one: "\<forall>k fid k' fid'. map_of (names st) k = Some fid \<longrightarrow> map_of (names st) k' = Some fid'
        \<longrightarrow> slab_of fid = slab_of fid' \<longrightarrow> k = k'"
    using names_inj_lookup [OF inj] by blast
  have read: "ref st' p k None = Inr (Some (t mod 4294967296), st')" if kt: "(k, t) \<in> set refs" for k t
  proof -
    from refAll_set_written [OF run d one kt fits]
    obtain fid where fid: "map_of (names st) k = Some fid" "0 \<le> fid" "nat fid < length slabs'"
      "typed_get (slabs' ! nat fid) i = Some (word_of_int t)"
      by blast
    show ?thesis
      using ref_read [OF p own', of k fid] fid by (simp add: nm' F' i' uint32_of_int)
  qed
  define g where "g = (\<lambda>(f :: string, fid). (f, map_option uint (typed_get (slabs' ! nat fid) i)))"
  define snap where "snap = map g (filter (\<lambda>(f, fid). 0 \<le> fid) (names st))"
  have in_range: "list_all (\<lambda>(f, fid). 0 \<le> fid \<longrightarrow> nat fid < length slabs') (names st)"
    using ok by (auto simp: names_ok_def list_all_iff len F_def)
  have occ': "jsget (values_b (blocks st' ! b)) i \<noteq> None"
    using occ by (simp add: occupied_def st' set_fields_frame i_def)
  have "refAll_get slabs' i (names st) = Inr snap"
    using refAll_get_snapshot [OF in_range] by (simp add: snap_def g_def)
  then have get: "refAll st' p None = Inr (Snapshot snap, st')"
    using p own' occ'
    by (auto simp: refAll_def noNullPointer_def Let_def i' F' nm')
  have "map fst snap = map fst (filter (\<lambda>(f, fid). 0 \<le> fid) (names st))"
    by (simp add: snap_def g_def split_def)
  then have dist: "distinct (map fst snap)"
    using inj by (simp add: names_inj_def distinct_map_filter)
  have written: "(k, Some (t mod 4294967296)) \<in> set snap" if kt: "(k, t) \<in> set refs" for k t
  proof -
    from refAll_set_written [OF run d one kt fits]
    obtain fid where fid: "map_of (names st) k = Some fid" "0 \<le> fid" "nat fid < length slabs'"
      "typed_get (slabs' ! nat fid) i = Some (word_of_int t)"
      by blast
    have "(k, fid) \<in> set (filter (\<lambda>(f, fid). 0 \<le> fid) (names st))"
      using fid(1,2) by (auto dest: map_of_SomeD)
    then have "g (k, fid) \<in> set snap"
      unfolding snap_def set_map by (rule imageI)
    then show ?thesis
      using fid(4) by (simp add: g_def uint32_of_int)
  qed
  have agree: "ref st' p k None = Inr (v, st')" if kv: "(k, v) \<in> set snap" for k v
  proof -
    from kv obtain fid where fid: "(k, fid) \<in> set (names st)" "0 \<le> fid"
      and v: "v = map_option uint (typed_get (slabs' ! nat fid) i)"
      by (auto simp: snap_def g_def)
    have "map_of (names st) k = Some fid"
      using inj fid(1) by (simp add: names_inj_def)
    moreover have "nat fid < length slabs'"
      using in_range fid by (auto simp: list_all_iff)
    ultimately show ?thesis
      using ref_read [OF p own', of k fid] fid(2) by (simp add: nm' F' i' v)
  qed
  show ?thesis
    using r read get dist written agree by blast
qed

lemma rawAll_set_lengths:
  "rawAll_set nm i kvs slabs = (e, slabs') \<Longrightarrow> map length slabs' = map length slabs"
proof (induction kvs arbitrary: slabs)
  case Nil
  then show ?case by simp
next
  case (Cons kv kvs)
  obtain k t where kv: "kv = (k, t)"
    by (cases kv)
  show ?case
  proof (cases "map_of nm k")
    case None
    then show ?thesis
      using Cons.prems by (simp add: kv)
  next
    case (Some fid)
    show ?thesis
    proof (cases "0 \<le> fid \<or> \<not> nat (js_not fid) < length slabs")
      case True
      then show ?thesis
        using Cons.prems Some by (auto simp: kv typed_get_def split: if_splits)
    next
      case False
      let ?s = "slabs[nat (js_not fid) := typed_set (slabs ! nat (js_not fid)) i (word_of_int t)]"
      have "rawAll_set nm i kvs ?s = (e, slabs')"
        using Cons.prems Some False by (simp add: kv typed_get_def)
      from Cons.IH [OF this] show ?thesis
        using False by (simp add: map_update length_typed_set list_update_same_conv)
    qed
  qed
qed

lemma rawAll_set_other:
  assumes "rawAll_set nm i kvs slabs = (e, slabs')"
    and "\<And>k fid. k \<in> fst ` set kvs \<Longrightarrow> map_of nm k = Some fid \<Longrightarrow> fid < 0 \<Longrightarrow> nat (js_not fid) \<noteq> j"
  shows "slabs' ! j = slabs ! j"
  using assms
proof (induction kvs arbitrary: slabs)
  case Nil
  then show ?case by simp
next
  case (Cons kv kvs)
  obtain k t where kv: "kv = (k, t)"
    by (cases kv)
  show ?case
  proof (cases "map_of nm k")
    case None
    then show ?thesis
      using Cons.prems(1) by (simp add: kv)
  next
    case (Some fid)
    show ?thesis
    proof (cases "0 \<le> fid \<or> \<not> nat (js_not fid) < length slabs")
      case True
      then show ?thesis
        using Cons.prems(1) Some by (auto simp: kv typed_get_def split: if_splits)
    next
      case False
      let ?s = "slabs[nat (js_not fid) := typed_set (slabs ! nat (js_not fid)) i (word_of_int t)]"
      have run: "rawAll_set nm i kvs ?s = (e, slabs')"
        using Cons.prems(1) Some False by (simp add: kv typed_get_def)
      have "nat (js_not fid) \<noteq> j"
        using Cons.prems(2) [of k fid] Some False by (simp add: kv)
      moreover have "slabs' ! j = ?s ! j"
      proof (rule Cons.IH [OF run])
        fix k' fid'
        assume "k' \<in> fst ` set kvs" "map_of nm k' = Some fid'" "fid' < 0"
        then show "nat (js_not fid') \<noteq> j"
          using Cons.prems(2) [of k' fid'] by simp
      qed
      ultimately show ?thesis
        by simp
    qed
  qed
qed

lemma rawAll_set_written:
  assumes "rawAll_set nm i kvs slabs = (None, slabs')"
    and "distinct (map fst kvs)"
    and inj: "\<forall>k fid k' fid'. map_of nm k = Some fid \<longrightarrow> map_of nm k' = Some fid'
        \<longrightarrow> slab_of fid = slab_of fid' \<longrightarrow> k = k'"
    and "(k, t) \<in> set kvs"
    and "list_all (\<lambda>slab. i < length slab) slabs"
  shows "\<exists>fid. map_of nm k = Some fid \<and> fid < 0 \<and> nat (js_not fid) < length slabs'
      \<and> typed_get (slabs' ! nat (js_not fid)) i = Some (word_of_int t)"
  using assms(1,2,4,5)
proof (induction kvs arbitrary: slabs)
  case Nil
  then show ?case by simp
next
  case (Cons kv kvs)
  obtain k0 t0 where kv: "kv = (k0, t0)"
    by (cases kv)
  from Cons.prems(1) obtain f0 where f0: "map_of nm k0 = Some f0" "f0 < 0" "nat (js_not f0) < length slabs"
    by (auto simp: kv typed_get_def split: option.splits if_splits)
  let ?s = "slabs[nat (js_not f0) := typed_set (slabs ! nat (js_not f0)) i (word_of_int t0)]"
  have run: "rawAll_set nm i kvs ?s = (None, slabs')"
    using Cons.prems(1) f0 by (simp add: kv typed_get_def)
  have fits: "list_all (\<lambda>slab. i < length slab) ?s"
    using Cons.prems(4) f0(3)
    by (auto simp: list_all_iff length_typed_set dest!: set_update_subset_insert [THEN subsetD])
  have lens: "map length slabs' = map length ?s"
    by (rule rawAll_set_lengths [OF run])
  show ?case
  proof (cases "(k, t) = (k0, t0)")
    case False
    then have "(k, t) \<in> set kvs"
      using Cons.prems(3) by (auto simp: kv)
    from Cons.IH [OF run _ this fits] show ?thesis
      using Cons.prems(2) by simp
  next
    case True
    have "slabs' ! nat (js_not f0) = ?s ! nat (js_not f0)"
    proof (rule rawAll_set_other [OF run])
      fix k' fid'
      assume k': "k' \<in> fst ` set kvs" "map_of nm k' = Some fid'" "fid' < 0"
      have "k' \<noteq> k0"
        using k'(1) Cons.prems(2) by (auto simp: kv)
      then have "slab_of fid' \<noteq> slab_of f0"
        using inj k'(2) f0(1) by blast
      then show "nat (js_not fid') \<noteq> nat (js_not f0)"
        using k'(3) f0(2) by (auto simp: slab_of_def)
    qed
    moreover have "i < length (slabs ! nat (js_not f0))"
      using Cons.prems(4) f0(3) by (simp add: list_all_length)
    moreover have "length slabs' = length slabs"
      using lens [THEN arg_cong, of length] by simp
    ultimately show ?thesis
      using True f0 by (simp add: typed_get_def length_typed_set typed_set_read)
  qed
qed

lemma raw_read:
  assumes "p \<noteq> 0" and "owner st p = Some b" and "map_of (names st) k = Some fid"
    and "fid < 0" and "nat (js_not fid) < length (rawFields (blocks st ! b))"
  shows "raw st p k None =
      Inr (map_option uint (typed_get (rawFields (blocks st ! b) ! nat (js_not fid)) (nat (getIndex st p))), st)"
  using assms by (simp add: raw_def noNullPointer_def Let_def typed_get_def)

lemma rawAll_get_snapshot:
  assumes "list_all (\<lambda>(f, fid). fid < 0 \<longrightarrow> nat (js_not fid) < length slabs) nm"
  shows "rawAll_get slabs i nm =
      Inr (map (\<lambda>(f, fid). (f, map_option uint (typed_get (slabs ! nat (js_not fid)) i)))
             (filter (\<lambda>(f, fid). fid < 0) nm))"
  using assms by (induction nm) (auto simp: typed_get_def)

lemma rawAll_read_back:
  assumes p: "p \<noteq> 0" and own: "owner st p = Some b" and ok: "names_ok st b"
    and inj: "names_inj st" and occ: "occupied st b p" and ix: "index_ok st b p"
    and d: "distinct (map fst raws)"
    and w: "rawAll st p (Some raws) = Inr (r, st')"
  shows "r = Given raws
    \<and> (\<forall>(k, t)\<in>set raws. raw st' p k None = Inr (Some (t mod 4294967296), st'))
    \<and> (\<exists>snap. rawAll st' p None = Inr (Snapshot snap, st') \<and> distinct (map fst snap)
          \<and> (\<forall>(k, t)\<in>set raws. (k, Some (t mod 4294967296)) \<in> set snap)
          \<and> (\<forall>(k, v)\<in>set snap. raw st' p k None = Inr (v, st')))"
proof -
  note b = owner_in_range [OF own]
  define F where "F = rawFields (blocks st ! b)"
  define i where "i = nat (getIndex st p)"
  from w p own occ obtain slabs' where run: "rawAll_set (names st) i raws F = (None, slabs')"
    and st': "st' = set_rawFields st b slabs'" and r: "r = Given raws"
    by (auto simp: rawAll_def noNullPointer_def Let_def occupied_def F_def i_def
        split: prod.splits option.splits)
  have len: "length slabs' = length F"
    using rawAll_set_lengths [OF run, THEN arg_cong, of length] by simp
  have fits: "list_all (\<lambda>slab. i < length slab) F"
    using ix by (simp add: index_ok_def F_def i_def)
  have own': "owner st' p = Some b" and i': "nat (getIndex st' p) = i"
    and F': "rawFields (blocks st' ! b) = slabs'" and nm': "names st' = names st"
    using own b by (simp_all add: st' set_rawFields_codec set_rawFields_rawFields set_rawFields_frame i_def)
  have one: "\<forall>k fid k' fid'. map_of (names st) k = Some fid \<longrightarrow> map_of (names st) k' = Some fid'
        \<longrightarrow> slab_of fid = slab_of fid' \<longrightarrow> k = k'"
    using names_inj_lookup [OF inj] by blast
  have read: "raw st' p k None = Inr (Some (t mod 4294967296), st')" if kt: "(k, t) \<in> set raws" for k t
  proof -
    from rawAll_set_written [OF run d one kt fits]
    obtain fid where fid: "map_of (names st) k = Some fid" "fid < 0" "nat (js_not fid) < length slabs'"
      "typed_get (slabs' ! nat (js_not fid)) i = Some (word_of_int t)"
      by blast
    show ?thesis
      using raw_read [OF p own', of k fid] fid by (simp add: nm' F' i' uint32_of_int)
  qed
  define g where "g = (\<lambda>(f :: string, fid). (f, map_option uint (typed_get (slabs' ! nat (js_not fid)) i)))"
  define snap where "snap = map g (filter (\<lambda>(f, fid). fid < 0) (names st))"
  have in_range: "list_all (\<lambda>(f, fid). fid < 0 \<longrightarrow> nat (js_not fid) < length slabs') (names st)"
    using ok by (auto simp: names_ok_def list_all_iff len F_def)
  have occ': "jsget (values_b (blocks st' ! b)) i \<noteq> None"
    using occ by (simp add: occupied_def st' set_rawFields_frame i_def)
  have "rawAll_get slabs' i (names st) = Inr snap"
    using rawAll_get_snapshot [OF in_range] by (simp add: snap_def g_def)
  then have get: "rawAll st' p None = Inr (Snapshot snap, st')"
    using p own' occ'
    by (auto simp: rawAll_def noNullPointer_def Let_def i' F' nm')
  have "map fst snap = map fst (filter (\<lambda>(f, fid). fid < 0) (names st))"
    by (simp add: snap_def g_def split_def)
  then have dist: "distinct (map fst snap)"
    using inj by (simp add: names_inj_def distinct_map_filter)
  have written: "(k, Some (t mod 4294967296)) \<in> set snap" if kt: "(k, t) \<in> set raws" for k t
  proof -
    from rawAll_set_written [OF run d one kt fits]
    obtain fid where fid: "map_of (names st) k = Some fid" "fid < 0" "nat (js_not fid) < length slabs'"
      "typed_get (slabs' ! nat (js_not fid)) i = Some (word_of_int t)"
      by blast
    have "(k, fid) \<in> set (filter (\<lambda>(f, fid). fid < 0) (names st))"
      using fid(1,2) by (auto dest: map_of_SomeD)
    then have "g (k, fid) \<in> set snap"
      unfolding snap_def set_map by (rule imageI)
    then show ?thesis
      using fid(4) by (simp add: g_def uint32_of_int)
  qed
  have agree: "raw st' p k None = Inr (v, st')" if kv: "(k, v) \<in> set snap" for k v
  proof -
    from kv obtain fid where fid: "(k, fid) \<in> set (names st)" "fid < 0"
      and v: "v = map_option uint (typed_get (slabs' ! nat (js_not fid)) i)"
      by (auto simp: snap_def g_def)
    have "map_of (names st) k = Some fid"
      using inj fid(1) by (simp add: names_inj_def)
    moreover have "nat (js_not fid) < length slabs'"
      using in_range fid by (auto simp: list_all_iff)
    ultimately show ?thesis
      using raw_read [OF p own', of k fid] fid(2) by (simp add: nm' F' i' v)
  qed
  show ?thesis
    using r read get dist written agree by blast
qed

text \<open>
  C6, as the code has it. For a pointer that is not null and whose block exists:
  when the slot of the pointer holds a value, \<^verbatim>\<open>refAll(p, refs)\<close> does what calling
  \<^verbatim>\<open>ref(p, key, refs[key])\<close> for each entry in turn does, and \<^verbatim>\<open>rawAll(p, raws)\<close>
  what calling \<^verbatim>\<open>raw\<close> does: the same writes, the same error at the first key
  that is unknown or of the wrong kind (after the writes before it), and the object
  given is the result. When the slot holds no value the call returns the object given
  and leaves the state alone: nothing is written and no key is checked. When the slot
  holds a value and the call returns, every key of the object given (an object has no
  key twice) reads back as the value written, as an unsigned 32-bit number, both with
  the single get \<^verbatim>\<open>ref(p, key)\<close> or \<^verbatim>\<open>raw(p, key)\<close> and in the object that the bulk get
  \<^verbatim>\<open>refAll(p)\<close> or \<^verbatim>\<open>rawAll(p)\<close> returns, whose entries are those of the single gets.
\<close>

theorem bulk_set_as_single_sets:
  assumes p: "p \<noteq> nullPointer" and own: "owner st p = Some b" and ok: "names_ok st b"
  shows "(occupied st b p \<longrightarrow>
            refAll st p (Some refs) = given refs (ref_each st p refs)
            \<and> rawAll st p (Some raws) = given raws (raw_each st p raws))
       \<and> (\<not> occupied st b p \<longrightarrow>
            refAll st p (Some refs) = Inr (Given refs, st)
            \<and> rawAll st p (Some raws) = Inr (Given raws, st))
       \<and> (occupied st b p \<and> index_ok st b p \<and> names_inj st \<longrightarrow>
            (\<forall>r st'. distinct (map fst refs) \<and> refAll st p (Some refs) = Inr (r, st') \<longrightarrow>
               r = Given refs
               \<and> (\<forall>(k, t)\<in>set refs. ref st' p k None = Inr (Some (t mod 4294967296), st'))
               \<and> (\<exists>snap. refAll st' p None = Inr (Snapshot snap, st') \<and> distinct (map fst snap)
                     \<and> (\<forall>(k, t)\<in>set refs. (k, Some (t mod 4294967296)) \<in> set snap)
                     \<and> (\<forall>(k, v)\<in>set snap. ref st' p k None = Inr (v, st'))))
            \<and> (\<forall>r st'. distinct (map fst raws) \<and> rawAll st p (Some raws) = Inr (r, st') \<longrightarrow>
               r = Given raws
               \<and> (\<forall>(k, t)\<in>set raws. raw st' p k None = Inr (Some (t mod 4294967296), st'))
               \<and> (\<exists>snap. rawAll st' p None = Inr (Snapshot snap, st') \<and> distinct (map fst snap)
                     \<and> (\<forall>(k, t)\<in>set raws. (k, Some (t mod 4294967296)) \<in> set snap)
                     \<and> (\<forall>(k, v)\<in>set snap. raw st' p k None = Inr (v, st')))))"
proof -
  have p0: "p \<noteq> 0"
    using p by (simp add: nullPointer_def)
  have one: "occupied st b p \<longrightarrow>
            refAll st p (Some refs) = given refs (ref_each st p refs)
            \<and> rawAll st p (Some raws) = given raws (raw_each st p raws)"
    using refAll_occupied [OF p0 own ok] rawAll_occupied [OF p0 own ok] by blast
  have two: "\<not> occupied st b p \<longrightarrow>
            refAll st p (Some refs) = Inr (Given refs, st)
            \<and> rawAll st p (Some raws) = Inr (Given raws, st)"
    using bulk_unoccupied [OF p0 own] by blast
  have three: "occupied st b p \<and> index_ok st b p \<and> names_inj st \<longrightarrow>
            (\<forall>r st'. distinct (map fst refs) \<and> refAll st p (Some refs) = Inr (r, st') \<longrightarrow>
               r = Given refs
               \<and> (\<forall>(k, t)\<in>set refs. ref st' p k None = Inr (Some (t mod 4294967296), st'))
               \<and> (\<exists>snap. refAll st' p None = Inr (Snapshot snap, st') \<and> distinct (map fst snap)
                     \<and> (\<forall>(k, t)\<in>set refs. (k, Some (t mod 4294967296)) \<in> set snap)
                     \<and> (\<forall>(k, v)\<in>set snap. ref st' p k None = Inr (v, st'))))"
    using refAll_read_back [OF p0 own ok, of refs] by blast
  have four: "occupied st b p \<and> index_ok st b p \<and> names_inj st \<longrightarrow>
            (\<forall>r st'. distinct (map fst raws) \<and> rawAll st p (Some raws) = Inr (r, st') \<longrightarrow>
               r = Given raws
               \<and> (\<forall>(k, t)\<in>set raws. raw st' p k None = Inr (Some (t mod 4294967296), st'))
               \<and> (\<exists>snap. rawAll st' p None = Inr (Snapshot snap, st') \<and> distinct (map fst snap)
                     \<and> (\<forall>(k, t)\<in>set raws. (k, Some (t mod 4294967296)) \<in> set snap)
                     \<and> (\<forall>(k, v)\<in>set snap. raw st' p k None = Inr (v, st'))))"
    using rawAll_read_back [OF p0 own ok, of raws] by blast
  show ?thesis
    using one two three four by blast
qed

text \<open>
  The bulk sets \<^verbatim>\<open>refAll(1, { x: 3, y: 4 })\<close> and \<^verbatim>\<open>rawAll(1, { p: 12345, q: -1 })\<close> on
  an occupied slot, read back with the single and the bulk get; and two bulk sets that
  throw.
\<close>

theorem bulk_set_as_single_sets_witness:
  "1 \<noteq> nullPointer \<and> owner wide_store 1 = Some 0 \<and> names_ok wide_store 0
   \<and> occupied wide_store 0 1 \<and> index_ok wide_store 0 1 \<and> names_inj wide_store
   \<and> distinct (map fst [(''x'', 3 :: int), (''y'', 4)])
   \<and> distinct (map fst [(''p'', 12345 :: int), (''q'', - 1)])
   \<and> refAll wide_store 1 (Some [(''x'', 3), (''y'', 4)]) =
       given [(''x'', 3), (''y'', 4)] (ref_each wide_store 1 [(''x'', 3), (''y'', 4)])
   \<and> rawAll wide_store 1 (Some [(''p'', 12345), (''q'', - 1)]) =
       given [(''p'', 12345), (''q'', - 1)] (raw_each wide_store 1 [(''p'', 12345), (''q'', - 1)])
   \<and> refAll wide_store 1 (Some [(''x'', 3), (''y'', 4)]) =
       Inr (Given [(''x'', 3), (''y'', 4)], wide_store_refs)
   \<and> ref wide_store_refs 1 ''x'' None = Inr (Some 3, wide_store_refs)
   \<and> ref wide_store_refs 1 ''y'' None = Inr (Some 4, wide_store_refs)
   \<and> refAll wide_store_refs 1 None =
       Inr (Snapshot [(''x'', Some 3), (''y'', Some 4)], wide_store_refs)
   \<and> rawAll wide_store 1 (Some [(''p'', 12345), (''q'', - 1)]) =
       Inr (Given [(''p'', 12345), (''q'', - 1)], wide_store_raws)
   \<and> raw wide_store_raws 1 ''p'' None = Inr (Some 12345, wide_store_raws)
   \<and> raw wide_store_raws 1 ''q'' None = Inr (Some 4294967295, wide_store_raws)
   \<and> rawAll wide_store_raws 1 None =
       Inr (Snapshot [(''p'', Some 12345), (''q'', Some 4294967295)], wide_store_raws)
   \<and> refAll wide_store 1 (Some [(''x'', 3), (''q'', 4)]) =
       Inl (RawAsPointer ''q'', state_of (ref wide_store 1 ''x'' (Some 3)))
   \<and> rawAll wide_store 1 (Some [(''asdf'', 3)]) = Inl (UnknownRawField ''asdf'', wide_store)"
proof -
  have h: "1 \<noteq> nullPointer" "owner wide_store 1 = Some 0" "names_ok wide_store 0"
    by (simp add: nullPointer_def, code_simp, code_simp)
  have o: "occupied wide_store 0 1" "index_ok wide_store 0 1" "names_inj wide_store"
    by (code_simp, code_simp, code_simp)
  have d: "distinct (map fst [(''x'', 3 :: int), (''y'', 4)])"
    "distinct (map fst [(''p'', 12345 :: int), (''q'', - 1)])"
    by simp_all
  have e1: "refAll wide_store 1 (Some [(''x'', 3), (''y'', 4)]) =
       Inr (Given [(''x'', 3), (''y'', 4)], wide_store_refs)"
    by code_simp
  have e2: "rawAll wide_store 1 (Some [(''p'', 12345), (''q'', - 1)]) =
       Inr (Given [(''p'', 12345), (''q'', - 1)], wide_store_raws)"
    by code_simp
  have e3: "refAll wide_store_refs 1 None =
       Inr (Snapshot [(''x'', Some 3), (''y'', Some 4)], wide_store_refs)"
    by code_simp
  have e4: "rawAll wide_store_raws 1 None =
       Inr (Snapshot [(''p'', Some 12345), (''q'', Some 4294967295)], wide_store_raws)"
    by code_simp
  have e5: "refAll wide_store 1 (Some [(''x'', 3), (''q'', 4)]) =
       Inl (RawAsPointer ''q'', state_of (ref wide_store 1 ''x'' (Some 3)))"
    by code_simp
  have e6: "rawAll wide_store 1 (Some [(''asdf'', 3)]) = Inl (UnknownRawField ''asdf'', wide_store)"
    by code_simp
  note t = bulk_set_as_single_sets [OF h, of "[(''x'', 3), (''y'', 4)]" "[(''p'', 12345), (''q'', - 1)]"]
  note s = t [THEN conjunct1, THEN mp, OF o(1)]
  note rb = t [THEN conjunct2, THEN conjunct2, THEN mp, OF conjI [OF o(1) conjI [OF o(2) o(3)]]]
  note r = rb [THEN conjunct1, THEN spec, THEN spec, THEN mp, OF conjI [OF d(1) e1],
      THEN conjunct2, THEN conjunct1]
  note w = rb [THEN conjunct2, THEN spec, THEN spec, THEN mp, OF conjI [OF d(2) e2],
      THEN conjunct2, THEN conjunct1]
  have r': "ref wide_store_refs 1 ''x'' None = Inr (Some 3, wide_store_refs)"
    "ref wide_store_refs 1 ''y'' None = Inr (Some 4, wide_store_refs)"
    using r by simp_all
  have w': "raw wide_store_raws 1 ''p'' None = Inr (Some 12345, wide_store_raws)"
    "raw wide_store_raws 1 ''q'' None = Inr (Some 4294967295, wide_store_raws)"
    using w by simp_all
  show ?thesis
    by (intro conjI h o d s [THEN conjunct1] s [THEN conjunct2] e1 e2 e3 e4 e5 e6 r' w')
qed

text \<open>
  C6 as stated fails for a slot that holds no value. After \<^verbatim>\<open>free(2)\<close>,
  \<^verbatim>\<open>refAll(2, {x: 3})\<close> and \<^verbatim>\<open>rawAll(2, {r: 12345})\<close> return their arguments and
  change nothing: the single reads still give 1 and 404. A key that \<^verbatim>\<open>ref\<close> or
  \<^verbatim>\<open>raw\<close> rejects is not rejected.
\<close>

theorem bulk_set_unoccupied_counterexample:
  "2 \<noteq> nullPointer
   \<and> value_p freed_store 2 None = Inr (None, freed_store)
   \<and> refAll freed_store 2 (Some [(''x'', 3)]) = Inr (Given [(''x'', 3)], freed_store)
   \<and> ref freed_store 2 ''x'' None = Inr (Some 1, freed_store)
   \<and> \<not> (fst (projr (ref (state_of (refAll freed_store 2 (Some [(''x'', 3)]))) 2 ''x'' None)) = Some 3)
   \<and> rawAll freed_store 2 (Some [(''r'', 12345)]) = Inr (Given [(''r'', 12345)], freed_store)
   \<and> raw freed_store 2 ''r'' None = Inr (Some 404, freed_store)
   \<and> \<not> (fst (projr (raw (state_of (rawAll freed_store 2 (Some [(''r'', 12345)]))) 2 ''r'' None)) = Some 12345)
   \<and> refAll freed_store 2 (Some [(''asdf'', 3)]) = Inr (Given [(''asdf'', 3)], freed_store)
   \<and> ref freed_store 2 ''asdf'' (Some 3) = Inl (UnknownPointerField ''asdf'', freed_store)
   \<and> rawAll freed_store 2 (Some [(''x'', 3)]) = Inr (Given [(''x'', 3)], freed_store)
   \<and> raw freed_store 2 ''x'' (Some 3) = Inl (PointerAsRaw ''x'', freed_store)"
proof -
  have "2 \<noteq> nullPointer"
    by (simp add: nullPointer_def)
  moreover have "value_p freed_store 2 None = Inr (None, freed_store)"
    by code_simp
  moreover have "refAll freed_store 2 (Some [(''x'', 3)]) = Inr (Given [(''x'', 3)], freed_store)"
    by code_simp
  moreover have "ref freed_store 2 ''x'' None = Inr (Some 1, freed_store)"
    by code_simp
  moreover have "\<not> (fst (projr (ref (state_of (refAll freed_store 2 (Some [(''x'', 3)]))) 2 ''x'' None)) = Some 3)"
    by code_simp
  moreover have "rawAll freed_store 2 (Some [(''r'', 12345)]) = Inr (Given [(''r'', 12345)], freed_store)"
    by code_simp
  moreover have "raw freed_store 2 ''r'' None = Inr (Some 404, freed_store)"
    by code_simp
  moreover have "\<not> (fst (projr (raw (state_of (rawAll freed_store 2 (Some [(''r'', 12345)]))) 2 ''r'' None)) = Some 12345)"
    by code_simp
  moreover have "refAll freed_store 2 (Some [(''asdf'', 3)]) = Inr (Given [(''asdf'', 3)], freed_store)"
    by code_simp
  moreover have "ref freed_store 2 ''asdf'' (Some 3) = Inl (UnknownPointerField ''asdf'', freed_store)"
    by code_simp
  moreover have "rawAll freed_store 2 (Some [(''x'', 3)]) = Inr (Given [(''x'', 3)], freed_store)"
    by code_simp
  moreover have "raw freed_store 2 ''x'' (Some 3) = Inl (PointerAsRaw ''x'', freed_store)"
    by code_simp
  ultimately show ?thesis
    by simp
qed

section \<open>The views of a raw field and raw agree\<close>

lemma in_memory_twice: "in_memory e (in_memory e xs) = xs"
  by (cases e) (simp_all add: in_memory_def)

lemma in_memory_map: "map f (in_memory e xs) = in_memory e (map f xs)"
  by (cases e) (simp_all add: in_memory_def rev_map)

lemma length_in_memory: "length (in_memory e xs) = length xs"
  by (cases e) (simp_all add: in_memory_def)

lemma length_digits: "length (digits B k n) = k"
  by (induction k arbitrary: n) simp_all

lemma digits_less: "0 < B \<Longrightarrow> d \<in> set (digits B k n) \<Longrightarrow> d < B"
  by (induction k arbitrary: n) auto

lemma undigits_digits: "0 < B \<Longrightarrow> n < B ^ k \<Longrightarrow> undigits B (digits B k n) = n"
proof (induction k arbitrary: n)
  case 0
  then show ?case by (simp add: undigits_def)
next
  case (Suc k)
  have "n div B < B ^ k"
    using Suc.prems by (simp add: less_mult_imp_div_less mult.commute)
  then have "undigits B (digits B k (n div B)) = n div B"
    using Suc.IH Suc.prems(1) by blast
  then show ?case
    by (simp add: undigits_def)
qed

lemma digits_undigits:
  "0 < B \<Longrightarrow> list_all (\<lambda>d. d < B) ds \<Longrightarrow> digits B (length ds) (undigits B ds) = ds"
proof (induction ds)
  case Nil
  then show ?case by simp
next
  case (Cons d ds)
  then have "digits B (length ds) (undigits B ds) = ds"
    by simp
  moreover have "undigits B (d # ds) = d + B * undigits B ds"
    by (simp add: undigits_def)
  ultimately show ?case
    using Cons.prems by simp
qed

lemma undigits_less:
  "0 < B \<Longrightarrow> list_all (\<lambda>d. d < B) ds \<Longrightarrow> undigits B ds < B ^ length ds"
proof (induction ds)
  case Nil
  then show ?case by (simp add: undigits_def)
next
  case (Cons d ds)
  then have ih: "undigits B ds < B ^ length ds" and d: "d < B"
    by simp_all
  have "d + B * undigits B ds < B + B * undigits B ds"
    using d by simp
  also have "\<dots> = B * (undigits B ds + 1)"
    by simp
  also have "\<dots> \<le> B * B ^ length ds"
    using ih by (intro mult_le_mono2) simp
  finally show ?case
    by (simp add: undigits_def)
qed

lemma word_of_bytes_of: "word_of_bytes e (bytes_of e w) = w"
proof -
  let ?ds = "digits 256 4 (unat w)"
  have "list_all (\<lambda>d. d < 256) ?ds"
    using digits_less [of 256 _ 4 "unat w"] by (simp add: list_all_iff)
  then have "map unat (map of_nat ?ds :: 8 word list) = ?ds"
    by (simp add: list_all_iff map_idI unat_of_nat)
  moreover have "unat w < 256 ^ 4"
    using unsigned_less [of w, where 'a = nat] by simp
  ultimately show ?thesis
    by (simp add: word_of_bytes_def bytes_of_def in_memory_twice in_memory_map undigits_digits
        del: digits.simps)
qed

lemma bytes_of_word_of:
  assumes "length bs = 4"
  shows "bytes_of e (word_of_bytes e bs) = bs"
proof -
  let ?ds = "map unat (in_memory e bs)"
  have small: "list_all (\<lambda>d. d < 256) ?ds"
    using unsigned_less [where 'b = 8 and 'a = nat] by (simp add: list_all_iff)
  have len: "length ?ds = 4"
    using assms by (simp add: length_in_memory)
  have "undigits 256 ?ds < 256 ^ length ?ds"
    by (rule undigits_less [OF _ small]) simp
  then have "undigits 256 ?ds < 4294967296"
    unfolding len by simp
  then have "unat (of_nat (undigits 256 ?ds) :: 32 word) = undigits 256 ?ds"
    by (simp add: unat_of_nat)
  moreover have "digits 256 4 (undigits 256 ?ds) = ?ds"
    using digits_undigits [OF _ small] len by simp
  ultimately have "bytes_of e (word_of_bytes e bs) = in_memory e (map of_nat ?ds)"
    by (simp add: bytes_of_def word_of_bytes_def del: digits.simps)
  also have "\<dots> = bs"
    by (simp add: in_memory_map [symmetric] in_memory_twice map_idI comp_def)
  finally show ?thesis .
qed

lemma digits_4:
  "digits B 4 n = [n mod B, n div B mod B, n div B div B mod B, n div B div B div B mod B]"
  by (simp add: eval_nat_numeral)

lemma word_of_halves_of: "word_of_halves e (halves_of e w) = w"
proof -
  let ?ds = "digits 65536 2 (unat w)"
  have "list_all (\<lambda>d. d < 65536) ?ds"
    using digits_less [of 65536 _ 2 "unat w"] by (simp add: list_all_iff)
  then have "map unat (map of_nat ?ds :: 16 word list) = ?ds"
    by (simp add: list_all_iff map_idI unat_of_nat)
  moreover have "unat w < 65536 ^ 2"
    using unsigned_less [of w, where 'a = nat] by simp
  ultimately show ?thesis
    by (simp add: word_of_halves_def halves_of_def in_memory_twice in_memory_map undigits_digits
        del: digits.simps)
qed

lemma halves_of_word_of:
  assumes "length hs = 2"
  shows "halves_of e (word_of_halves e hs) = hs"
proof -
  let ?ds = "map unat (in_memory e hs)"
  have small: "list_all (\<lambda>d. d < 65536) ?ds"
    using unsigned_less [where 'b = 16 and 'a = nat] by (simp add: list_all_iff)
  have len: "length ?ds = 2"
    using assms by (simp add: length_in_memory)
  have "undigits 65536 ?ds < 65536 ^ length ?ds"
    by (rule undigits_less [OF _ small]) simp
  then have "undigits 65536 ?ds < 4294967296"
    unfolding len by simp
  then have "unat (of_nat (undigits 65536 ?ds) :: 32 word) = undigits 65536 ?ds"
    by (simp add: unat_of_nat)
  moreover have "digits 65536 2 (undigits 65536 ?ds) = ?ds"
    using digits_undigits [OF _ small] len by simp
  ultimately have "halves_of e (word_of_halves e hs) = in_memory e (map of_nat ?ds)"
    by (simp add: halves_of_def word_of_halves_def del: digits.simps)
  also have "\<dots> = hs"
    by (simp add: in_memory_map [symmetric] in_memory_twice map_idI comp_def)
  finally show ?thesis .
qed

lemma length_bytes_of: "length (bytes_of e w) = 4"
  by (simp add: bytes_of_def length_in_memory length_digits)

lemma length_halves_of: "length (halves_of e w) = 2"
  by (simp add: halves_of_def length_in_memory length_digits)

text \<open>What a view that \<^const>\<open>raw_view\<close> returns is.\<close>

lemma raw_view_found:
  assumes rv: "raw_view st p f = Inr (v, st')"
  obtains b fid where "v = View b (nat (js_not fid)) (nat (getIndex st p))"
    and "st' = st" and "p \<noteq> 0" and "owner st p = Some b" and "b < length (blocks st)"
    and "map_of (names st) f = Some fid" and "fid < 0"
    and "nat (js_not fid) < length (rawFields (blocks st ! b))"
proof -
  have p: "p \<noteq> 0"
    using rv by (cases "p = 0") (simp_all add: raw_view_def noNullPointer_def)
  obtain b where own: "owner st p = Some b"
    using rv p
    by (cases "owner st p")
      (simp_all add: raw_view_def noNullPointer_def Let_def split: if_splits)
  obtain fid where fid: "map_of (names st) f = Some fid"
    using rv p own
    by (cases "map_of (names st) f") (simp_all add: raw_view_def noNullPointer_def Let_def)
  have neg: "fid < 0"
    using rv p own fid
    by (cases "fid < 0") (simp_all add: raw_view_def noNullPointer_def Let_def)
  have slab: "nat (js_not fid) < length (rawFields (blocks st ! b))"
    using rv p own fid neg
    by (cases "nat (js_not fid) < length (rawFields (blocks st ! b))")
      (simp_all add: raw_view_def noNullPointer_def Let_def typed_get_def)
  have "v = View b (nat (js_not fid)) (nat (getIndex st p))" and "st' = st"
    using rv p own fid neg slab
    by (auto simp: raw_view_def noNullPointer_def Let_def typed_get_def)
  moreover have "b < length (blocks st)"
    using own by (rule owner_in_range)
  ultimately show ?thesis
    using that p own fid neg slab by blast
qed

lemma raw_read_view:
  assumes "raw_view st p f = Inr (v, st')"
  shows "raw st p f None = Inr (map_option uint (view_word st v), st)"
proof -
  from assms obtain b fid where "v = View b (nat (js_not fid)) (nat (getIndex st p))"
    "p \<noteq> 0" "owner st p = Some b" "b < length (blocks st)"
    "map_of (names st) f = Some fid" "fid < 0"
    "nat (js_not fid) < length (rawFields (blocks st ! b))"
    by (rule raw_view_found)
  then show ?thesis
    by (simp add: raw_def noNullPointer_def Let_def typed_get_def)
qed

lemma raw_write_view:
  assumes "raw_view st p f = Inr (v, st')"
  shows "raw st p f (Some t) = Inr (Some t, view_put st v (word_of_int t))"
proof -
  from assms obtain b fid where "v = View b (nat (js_not fid)) (nat (getIndex st p))"
    "p \<noteq> 0" "owner st p = Some b" "b < length (blocks st)"
    "map_of (names st) f = Some fid" "fid < 0"
    "nat (js_not fid) < length (rawFields (blocks st ! b))"
    by (rule raw_view_found)
  then show ?thesis
    by (simp add: raw_def noNullPointer_def Let_def typed_get_def)
qed

lemma view_put_word:
  assumes "view_word st v = Some w0"
  shows "view_word (view_put st v w) v = Some w"
proof -
  obtain b s i where v: "v = View b s i"
    by (cases v)
  show ?thesis
    using assms
    by (auto simp: v typed_get_def typed_set_def set_rawFields_frame set_rawFields_rawFields
        split: if_splits)
qed

lemma view_put_raw_view:
  assumes "raw_view st p f = Inr (v, st')"
  shows "raw_view (view_put st v w) p f = Inr (v, view_put st v w)"
proof -
  from assms obtain b fid where v: "v = View b (nat (js_not fid)) (nat (getIndex st p))"
    and f: "p \<noteq> 0" "owner st p = Some b" "b < length (blocks st)"
    "map_of (names st) f = Some fid" "fid < 0"
    "nat (js_not fid) < length (rawFields (blocks st ! b))"
    by (rule raw_view_found)
  show ?thesis
    using f
    by (simp add: v raw_view_def noNullPointer_def Let_def typed_get_def set_rawFields_codec
        set_rawFields_frame set_rawFields_rawFields)
qed

lemma views_agree_at:
  assumes rv: "raw_view st p f = Inr (v, st')" and w: "view_word st v = Some w"
  shows "views_agree e st p f v"
  unfolding views_agree_def
  using raw_read_view [OF rv] w
  by (intro exI [of _ w])
    (simp add: raw8_read_def raw16_read_def raw32_read_def word_of_bytes_of word_of_halves_of)

text \<open>
  After a write of the slot the view is still the view of the pointer and the field, and
  the views and \<^const>\<open>raw\<close> agree on the number written.
\<close>

lemma view_put_agree:
  assumes rv: "raw_view st p f = Inr (v, st)" and w0: "view_word st v = Some w0"
  shows "raw_view (view_put st v w) p f = Inr (v, view_put st v w)
         \<and> view_word (view_put st v w) v = Some w
         \<and> views_agree e (view_put st v w) p f v"
  using view_put_raw_view [OF rv] view_put_word [OF w0]
    views_agree_at [OF view_put_raw_view [OF rv] view_put_word [OF w0]]
  by simp


lemma bytes_example:
  "bytes_of LittleEndian 16909060 = [4, 3, 2, 1]" "bytes_of BigEndian 16909060 = [1, 2, 3, 4]"
  by (simp_all add: bytes_of_def in_memory_def digits_4 del: digits.simps)

text \<open>
  C9, on the model of the views that follows the spec. Let \<open>v\<close> be the view that
  \<^verbatim>\<open>raw8\<close>, \<^verbatim>\<open>raw16\<close> or \<^verbatim>\<open>raw32\<close> returns for a pointer and a raw field, over
  a slot within the slab. Then the views and \<^verbatim>\<open>raw()\<close> agree: they show the same
  32-bit number, as 4 bytes, 2 half-words and 1 word in the byte order of the platform.
  A write through \<^verbatim>\<open>raw(p, field, value)\<close> is a write of the slot of the view, and
  after it, as after a write of an element of any of the three views, \<open>v\<close> is still the
  view of the pointer and the field and all agree again; the view that was written
  holds the element written, and the byte view holds the bytes of the value written
  through \<^verbatim>\<open>raw\<close>. The bytes of \<^verbatim>\<open>0x01020304\<close> are 4, 3, 2, 1 on a little-endian
  platform and 1, 2, 3, 4 on a big-endian one.
\<close>

theorem raw_views_alias:
  assumes rv: "raw_view st p f = Inr (v, st)" and w0: "view_word st v = Some w0"
  shows "views_agree e st p f v
     \<and> raw st p f (Some t) = Inr (Some t, view_put st v (word_of_int t))
     \<and> raw_view (view_put st v (word_of_int t)) p f = Inr (v, view_put st v (word_of_int t))
     \<and> views_agree e (view_put st v (word_of_int t)) p f v
     \<and> raw8_read e (view_put st v (word_of_int t)) v = Some (bytes_of e (word_of_int t))
     \<and> (j < 4 \<longrightarrow>
           raw_view (raw8_write e st v j x) p f = Inr (v, raw8_write e st v j x)
           \<and> views_agree e (raw8_write e st v j x) p f v
           \<and> raw8_read e (raw8_write e st v j x) v = Some ((bytes_of e w0)[j := x]))
     \<and> (j < 2 \<longrightarrow>
           raw_view (raw16_write e st v j y) p f = Inr (v, raw16_write e st v j y)
           \<and> views_agree e (raw16_write e st v j y) p f v
           \<and> raw16_read e (raw16_write e st v j y) v = Some ((halves_of e w0)[j := y]))
     \<and> raw_view (raw32_write st v 0 z) p f = Inr (v, raw32_write st v 0 z)
     \<and> views_agree e (raw32_write st v 0 z) p f v
     \<and> raw32_read (raw32_write st v 0 z) v = Some [z]
     \<and> bytes_of LittleEndian 16909060 = [4, 3, 2, 1]
     \<and> bytes_of BigEndian 16909060 = [1, 2, 3, 4]"
proof -
  note put = view_put_agree [OF rv w0]
  have a: "views_agree e st p f v"
    using rv w0 by (rule views_agree_at)
  have b: "raw st p f (Some t) = Inr (Some t, view_put st v (word_of_int t))"
    using rv by (rule raw_write_view)
  have c: "raw8_read e (view_put st v (word_of_int t)) v = Some (bytes_of e (word_of_int t))"
    using put [of "word_of_int t"] by (simp add: raw8_read_def)
  have d: "raw8_write e st v j x = view_put st v (word_of_bytes e ((bytes_of e w0)[j := x]))"
    if "j < 4"
    using that w0 by (simp add: raw8_write_def)
  have d': "raw8_read e (raw8_write e st v j x) v = Some ((bytes_of e w0)[j := x])" if "j < 4"
    using put [of "word_of_bytes e ((bytes_of e w0)[j := x])"]
    by (simp add: d [OF that] raw8_read_def bytes_of_word_of length_bytes_of)
  have h: "raw16_write e st v j y = view_put st v (word_of_halves e ((halves_of e w0)[j := y]))"
    if "j < 2"
    using that w0 by (simp add: raw16_write_def)
  have h': "raw16_read e (raw16_write e st v j y) v = Some ((halves_of e w0)[j := y])" if "j < 2"
    using put [of "word_of_halves e ((halves_of e w0)[j := y])"]
    by (simp add: h [OF that] raw16_read_def halves_of_word_of length_halves_of)
  have k: "raw32_write st v 0 z = view_put st v z"
    using w0 by (simp add: raw32_write_def)
  have k': "raw32_read (raw32_write st v 0 z) v = Some [z]"
    using put [of z] by (simp add: k raw32_read_def)
  show ?thesis
    using a b c d d' h h' k k' put bytes_example by simp
qed



lemma views_store_view:
  "raw_view views_store 1 ''x'' = Inr (View 0 0 1, views_store)"
  "view_word views_store (View 0 0 1) = Some 0"
  by (code_simp, code_simp)

lemma bytes_of_zero: "bytes_of e 0 = [0, 0, 0, 0]"
  by (cases e) (simp_all add: bytes_of_def in_memory_def digits_4 del: digits.simps)

theorem raw_views_alias_witness:
  "raw_view views_store 1 ''x'' = Inr (View 0 0 1, views_store)
   \<and> view_word views_store (View 0 0 1) = Some 0
   \<and> raw views_store 1 ''x'' (Some 16909060)
       = Inr (Some 16909060, view_put views_store (View 0 0 1) 16909060)
   \<and> raw8_read LittleEndian (view_put views_store (View 0 0 1) 16909060) (View 0 0 1)
       = Some [4, 3, 2, 1]
   \<and> raw8_read BigEndian (view_put views_store (View 0 0 1) 16909060) (View 0 0 1)
       = Some [1, 2, 3, 4]
   \<and> views_agree LittleEndian (raw8_write LittleEndian views_store (View 0 0 1) 3 9) 1 ''x'' (View 0 0 1)
   \<and> raw8_read LittleEndian (raw8_write LittleEndian views_store (View 0 0 1) 3 9) (View 0 0 1)
       = Some [0, 0, 0, 9]"
proof -
  note le = raw_views_alias [OF views_store_view, of LittleEndian 16909060 3 9]
  note be = raw_views_alias [OF views_store_view, of BigEndian 16909060 3 9]
  have n: "(word_of_int 16909060 :: 32 word) = 16909060"
    by simp
  have "raw8_read LittleEndian (view_put views_store (View 0 0 1) 16909060) (View 0 0 1)
       = Some [4, 3, 2, 1]"
    using le unfolding n by (simp only: bytes_example)
  moreover have "raw8_read BigEndian (view_put views_store (View 0 0 1) 16909060) (View 0 0 1)
       = Some [1, 2, 3, 4]"
    using be unfolding n by (simp only: bytes_example)
  moreover have "raw views_store 1 ''x'' (Some 16909060)
       = Inr (Some 16909060, view_put views_store (View 0 0 1) 16909060)"
    using le unfolding n by (simp only:)
  moreover have "views_agree LittleEndian (raw8_write LittleEndian views_store (View 0 0 1) 3 9) 1 ''x'' (View 0 0 1)"
    using le by (simp del: digits.simps)
  moreover have "raw8_read LittleEndian (raw8_write LittleEndian views_store (View 0 0 1) 3 9) (View 0 0 1)
       = Some [0, 0, 0, 9]"
    using le by (simp add: bytes_of_zero del: digits.simps)
  ultimately show ?thesis
    using views_store_view by (simp only: simp_thms)
qed

section \<open>The constructor establishes the well-formedness conditions\<close>

lemma set_update_cases:
  "(k', v') \<in> set (AList.update k v al) \<Longrightarrow> (k', v') = (k, v) \<or> (k', v') \<in> set al"
  by (induction al) (auto split: if_splits)

lemma init_fields_ids:
  assumes "\<And>f fid. (f, fid) \<in> set nm \<Longrightarrow> 0 \<le> fid \<and> nat fid < length slabs"
    and "init_fields bs fs (nm, slabs) = (nm', slabs')"
    and "(f, fid) \<in> set nm'"
  shows "0 \<le> fid \<and> nat fid < length slabs'"
  using assms
proof (induction fs arbitrary: nm slabs)
  case Nil
  then show ?case by simp
next
  case (Cons g gs)
  show ?case
  proof (rule Cons.IH [of "AList.update g (int (length slabs)) nm"
        "slabs @ [typed_set (unsafeUint32Array bs) 0 0]"])
    fix h hid
    assume "(h, hid) \<in> set (AList.update g (int (length slabs)) nm)"
    then have "(h, hid) = (g, int (length slabs)) \<or> (h, hid) \<in> set nm"
      by (rule set_update_cases)
    then show "0 \<le> hid \<and> nat hid < length (slabs @ [typed_set (unsafeUint32Array bs) 0 0])"
      using Cons.prems(1) [of h hid] by auto
  next
    show "init_fields bs gs (AList.update g (int (length slabs)) nm,
        slabs @ [typed_set (unsafeUint32Array bs) 0 0]) = (nm', slabs')"
      using Cons.prems(2) by simp
  next
    show "(f, fid) \<in> set nm'"
      by (rule Cons.prems(3))
  qed
qed

lemma js_not_int:
  assumes "n < 2147483648"
  shows "js_not (int n) < 0" and "nat (js_not (js_not (int n))) = n"
  using assms by (simp_all add: js_not_def toInt32_def)

lemma init_rawFields_ids:
  assumes "\<And>f fid. (f, fid) \<in> set nm \<Longrightarrow>
        (if 0 \<le> fid then nat fid < nf else nat (js_not fid) < length slabs)"
    and "init_rawFields fs bs rs (nm, slabs) = Inr (nm', slabs')"
    and "length slabs + length rs \<le> 2147483648"
    and "(f, fid) \<in> set nm'"
  shows "if 0 \<le> fid then nat fid < nf else nat (js_not fid) < length slabs'"
  using assms
proof (induction rs arbitrary: nm slabs)
  case Nil
  show ?case
    using Nil.prems(1) [of f fid] Nil.prems(2,4) by (auto split: if_splits)
next
  case (Cons r rs)
  have small: "length slabs < 2147483648"
    using Cons.prems(3) by simp
  have notin: "r \<notin> set fs"
    using Cons.prems(2) by (simp split: if_splits)
  show ?case
  proof (rule Cons.IH [of "AList.update r (js_not (int (length slabs))) nm"
        "slabs @ [typed_set (unsafeUint32Array bs) 0 0]"])
    fix h hid
    assume "(h, hid) \<in> set (AList.update r (js_not (int (length slabs))) nm)"
    then have "(h, hid) = (r, js_not (int (length slabs))) \<or> (h, hid) \<in> set nm"
      by (rule set_update_cases)
    then show "if 0 \<le> hid then nat hid < nf
        else nat (js_not hid) < length (slabs @ [typed_set (unsafeUint32Array bs) 0 0])"
    proof
      assume "(h, hid) = (r, js_not (int (length slabs)))"
      then show ?thesis
        using js_not_int [OF small] by simp
    next
      assume "(h, hid) \<in> set nm"
      then show ?thesis
        using Cons.prems(1) [of h hid] by (simp split: if_splits)
    qed
  next
    show "init_rawFields fs bs rs (AList.update r (js_not (int (length slabs))) nm,
        slabs @ [typed_set (unsafeUint32Array bs) 0 0]) = Inr (nm', slabs')"
      using Cons.prems(2) notin by simp
  next
    show "length (slabs @ [typed_set (unsafeUint32Array bs) 0 0]) + length rs \<le> 2147483648"
      using Cons.prems(3) by simp
  next
    show "(f, fid) \<in> set nm'"
      by (rule Cons.prems(4))
  qed
qed

text \<open>
  A set that the constructor returns is well formed: every field id of \<open>names\<close> indexes a
  slab of its kind in the root block, the available blocks exist, and the free list fits.
\<close>

lemma PointerSet_new_ok:
  assumes new: "PointerSet_new fs bsa rfs = Inr st"
    and few: "(case rfs of None \<Rightarrow> 0 | Some rs \<Rightarrow> length rs) \<le> 2147483648"
  shows "names_ok st 0" and "avail_ok st" and "stacks_ok st"
proof -
  define bs where "bs = (case bsa of None \<Rightarrow> 256 | Some n \<Rightarrow> n)"
  obtain nm slabs where f: "init_fields bs fs ([], []) = (nm, slabs)"
    by (cases "init_fields bs fs ([], [])")
  have ids: "0 \<le> fid \<and> nat fid < length slabs" if "(f, fid) \<in> set nm" for f fid
    using init_fields_ids [OF _ f that] by simp
  obtain nm' rslabs where r: "(case rfs of None \<Rightarrow> Inr (nm, [])
        | Some rs \<Rightarrow> init_rawFields fs bs rs (nm, [])) = Inr (nm', rslabs)"
    and st: "blocks st = [\<lparr> values_b = [None], nextFree = 1, fields_b = slabs,
          rawFields = rslabs, freeList = Stack_new bs, firstNextFree = 1 \<rparr>]"
      "names st = nm'" "blocksAvail st = [0]"
    using new f
    by (auto simp: PointerSet_new_def Let_def bs_def [symmetric] split: if_splits sum.splits)
  have "if 0 \<le> fid then nat fid < length slabs else nat (js_not fid) < length rslabs"
    if mem: "(f, fid) \<in> set nm'" for f fid
  proof (cases rfs)
    case None
    then show ?thesis
      using r ids [of f fid] mem by simp
  next
    case (Some rs)
    have "init_rawFields fs bs rs (nm, []) = Inr (nm', rslabs)"
      using r Some by simp
    from init_rawFields_ids [OF _ this _ mem, of "length slabs"]
    show ?thesis
      using ids few Some by simp
  qed
  then show "names_ok st 0"
    by (auto simp: names_ok_def st list_all_iff)
  show "avail_ok st"
    by (simp add: avail_ok_def st)
  show "stacks_ok st"
    by (simp add: stacks_ok_def st stack_fits_def Stack_new_def unsafeUint8Array_def
        unsafeUint16Array_def)
qed

lemma slab_of_field: "slab_of (int n) = (True, n)"
  by (simp add: slab_of_def)

lemma slab_of_raw: "n < 2147483648 \<Longrightarrow> slab_of (js_not (int n)) = (False, n)"
  using js_not_int [of n] by (simp add: slab_of_def)

lemma distinct_update_slab:
  assumes "distinct (map (\<lambda>(f, fid). slab_of fid) al)"
    and "\<And>f fid. (f, fid) \<in> set al \<Longrightarrow> slab_of fid \<noteq> slab_of v"
  shows "distinct (map (\<lambda>(f, fid). slab_of fid) (AList.update k v al))"
  using assms
proof (induction al)
  case Nil
  then show ?case by simp
next
  case (Cons a al)
  obtain f0 x0 where a: "a = (f0, x0)"
    by (cases a)
  show ?case
  proof (cases "f0 = k")
    case True
    then show ?thesis
      using Cons.prems by (force simp: a)
  next
    case False
    have "distinct (map (\<lambda>(f, fid). slab_of fid) (AList.update k v al))"
    proof (rule Cons.IH)
      show "distinct (map (\<lambda>(f, fid). slab_of fid) al)"
        using Cons.prems(1) by simp
    next
      fix f fid
      assume "(f, fid) \<in> set al"
      then show "slab_of fid \<noteq> slab_of v"
        using Cons.prems(2) [of f fid] by simp
    qed
    moreover have "slab_of x0 \<noteq> slab_of fid" if "(f, fid) \<in> set (AList.update k v al)" for f fid
    proof -
      from that have "(f, fid) = (k, v) \<or> (f, fid) \<in> set al"
        by (rule set_update_cases)
      then show ?thesis
        using Cons.prems(1) Cons.prems(2) [of f0 x0] by (force simp: a)
    qed
    ultimately show ?thesis
      using False by (auto simp: a)
  qed
qed

lemma init_fields_inj:
  assumes "distinct (map fst nm)" and "distinct (map (\<lambda>(f, fid). slab_of fid) nm)"
    and "\<And>f fid. (f, fid) \<in> set nm \<Longrightarrow> 0 \<le> fid \<and> nat fid < length slabs"
    and "init_fields bs fs (nm, slabs) = (nm', slabs')"
  shows "distinct (map fst nm') \<and> distinct (map (\<lambda>(f, fid). slab_of fid) nm')"
  using assms
proof (induction fs arbitrary: nm slabs)
  case Nil
  then show ?case by simp
next
  case (Cons g gs)
  show ?case
  proof (rule Cons.IH [of "AList.update g (int (length slabs)) nm"
        "slabs @ [typed_set (unsafeUint32Array bs) 0 0]"])
    show "distinct (map fst (AList.update g (int (length slabs)) nm))"
      using Cons.prems(1) by (rule distinct_update)
  next
    show "distinct (map (\<lambda>(f, fid). slab_of fid) (AList.update g (int (length slabs)) nm))"
    proof (rule distinct_update_slab [OF Cons.prems(2)])
      fix f fid
      assume "(f, fid) \<in> set nm"
      then show "slab_of fid \<noteq> slab_of (int (length slabs))"
        using Cons.prems(3) [of f fid] by (auto simp: slab_of_def)
    qed
  next
    fix h hid
    assume "(h, hid) \<in> set (AList.update g (int (length slabs)) nm)"
    then have "(h, hid) = (g, int (length slabs)) \<or> (h, hid) \<in> set nm"
      by (rule set_update_cases)
    then show "0 \<le> hid \<and> nat hid < length (slabs @ [typed_set (unsafeUint32Array bs) 0 0])"
      using Cons.prems(3) [of h hid] by auto
  next
    show "init_fields bs gs (AList.update g (int (length slabs)) nm,
        slabs @ [typed_set (unsafeUint32Array bs) 0 0]) = (nm', slabs')"
      using Cons.prems(4) by simp
  qed
qed

lemma init_rawFields_inj:
  assumes "distinct (map fst nm)" and "distinct (map (\<lambda>(f, fid). slab_of fid) nm)"
    and "\<And>f fid. (f, fid) \<in> set nm \<Longrightarrow> 0 \<le> fid \<or> nat (js_not fid) < length slabs"
    and "init_rawFields fs bs rs (nm, slabs) = Inr (nm', slabs')"
    and "length slabs + length rs \<le> 2147483648"
  shows "distinct (map fst nm') \<and> distinct (map (\<lambda>(f, fid). slab_of fid) nm')"
  using assms
proof (induction rs arbitrary: nm slabs)
  case Nil
  then show ?case by simp
next
  case (Cons r rs)
  have small: "length slabs < 2147483648"
    using Cons.prems(5) by simp
  have notin: "r \<notin> set fs"
    using Cons.prems(4) by (simp split: if_splits)
  show ?case
  proof (rule Cons.IH [of "AList.update r (js_not (int (length slabs))) nm"
        "slabs @ [typed_set (unsafeUint32Array bs) 0 0]"])
    show "distinct (map fst (AList.update r (js_not (int (length slabs))) nm))"
      using Cons.prems(1) by (rule distinct_update)
  next
    show "distinct (map (\<lambda>(f, fid). slab_of fid) (AList.update r (js_not (int (length slabs))) nm))"
    proof (rule distinct_update_slab [OF Cons.prems(2)])
      fix f fid
      assume "(f, fid) \<in> set nm"
      then have "slab_of fid \<noteq> (False, length slabs)"
        using Cons.prems(3) [of f fid] by (auto simp: slab_of_def split: if_splits)
      then show "slab_of fid \<noteq> slab_of (js_not (int (length slabs)))"
        unfolding slab_of_raw [OF small] .
    qed
  next
    fix h hid
    assume "(h, hid) \<in> set (AList.update r (js_not (int (length slabs))) nm)"
    then have "(h, hid) = (r, js_not (int (length slabs))) \<or> (h, hid) \<in> set nm"
      by (rule set_update_cases)
    then show "0 \<le> hid \<or> nat (js_not hid) < length (slabs @ [typed_set (unsafeUint32Array bs) 0 0])"
      using Cons.prems(3) [of h hid] js_not_int [OF small] by auto
  next
    show "init_rawFields fs bs rs (AList.update r (js_not (int (length slabs))) nm,
        slabs @ [typed_set (unsafeUint32Array bs) 0 0]) = Inr (nm', slabs')"
      using Cons.prems(4) notin by simp
  next
    show "length (slabs @ [typed_set (unsafeUint32Array bs) 0 0]) + length rs \<le> 2147483648"
      using Cons.prems(5) by simp
  qed
qed

text \<open>The constructor gives every name a slab of its own.\<close>

lemma PointerSet_new_inj:
  assumes new: "PointerSet_new fs bsa rfs = Inr st"
    and few: "(case rfs of None \<Rightarrow> 0 | Some rs \<Rightarrow> length rs) \<le> 2147483648"
  shows "names_inj st"
proof -
  define bs where "bs = (case bsa of None \<Rightarrow> 256 | Some n \<Rightarrow> n)"
  obtain nm slabs where f: "init_fields bs fs ([], []) = (nm, slabs)"
    by (cases "init_fields bs fs ([], [])")
  have d: "distinct (map fst nm) \<and> distinct (map (\<lambda>(f, fid). slab_of fid) nm)"
    using init_fields_inj [OF _ _ _ f] by simp
  obtain nm' rslabs where r: "(case rfs of None \<Rightarrow> Inr (nm, [])
        | Some rs \<Rightarrow> init_rawFields fs bs rs (nm, [])) = Inr (nm', rslabs)"
    and st: "names st = nm'"
    using new f
    by (auto simp: PointerSet_new_def Let_def bs_def [symmetric] split: if_splits sum.splits)
  have "distinct (map fst nm') \<and> distinct (map (\<lambda>(f, fid). slab_of fid) nm')"
  proof (cases rfs)
    case None
    then show ?thesis
      using r d by simp
  next
    case (Some rs)
    have run: "init_rawFields fs bs rs (nm, []) = Inr (nm', rslabs)"
      using r Some by simp
    show ?thesis
    proof (rule init_rawFields_inj [OF _ _ _ run])
      show "distinct (map fst nm)" "distinct (map (\<lambda>(f, fid). slab_of fid) nm)"
        using d by simp_all
    next
      fix f fid
      assume "(f, fid) \<in> set nm"
      then show "0 \<le> fid \<or> nat (js_not fid) < length ([] :: 32 word list list)"
        using init_fields_ids [OF _ f, of f fid] by simp
    next
      show "length ([] :: 32 word list list) + length rs \<le> 2147483648"
        using few Some by simp
    qed
  qed
  then show ?thesis
    by (simp add: names_inj_def st)
qed

end
